theory Spec2Isabelle
  imports Complex_Main "HOL-Library.Signed_Division" "HOL-Library.Monad_Syntax"
begin

section \<open>Blocked matrix multiplication and its thread-scaling harness\<close>

text \<open>
  A shallow embedding of \<^verbatim>\<open>blocked-matrix-multiplication.cpp\<close>.  Throughout,
  a result of type \<open>'x option\<close> is \<open>None\<close> exactly when the C++ program has undefined
  behaviour at that point (an index outside a vector, an integer division by zero, a
  non-positive \<^verbatim>\<open>num_threads\<close> clause); every other way in which the program can end is
  an explicit value.
\<close>

subsection \<open>The type \<^verbatim>\<open>double\<close>\<close>

text \<open>
  The program computes with \<^verbatim>\<open>double\<close>.  Its operations are taken as parameters, with no
  algebraic law assumed of them (floating-point addition is not associative), so every
  theorem below holds for the hardware arithmetic as it is.
\<close>

record 'a arith =
  dzero :: 'a                          \<comment> \<open>the literal \<^verbatim>\<open>0.0\<close>\<close>
  dadd :: "'a \<Rightarrow> 'a \<Rightarrow> 'a"
  dmul :: "'a \<Rightarrow> 'a \<Rightarrow> 'a"
  dsub :: "'a \<Rightarrow> 'a \<Rightarrow> 'a"
  ddiv :: "'a \<Rightarrow> 'a \<Rightarrow> 'a"
  dint :: "int \<Rightarrow> 'a"                  \<comment> \<open>conversion of an integer to \<^verbatim>\<open>double\<close>\<close>

text \<open>
  One concrete arithmetic, for evaluating the program on explicit inputs: IEEE 754
  values with the infinities and NaN, finite values computed exactly.  It agrees with
  binary64 wherever the exact result is representable (all inputs used below are small
  integers and halves); the sign of zero is not represented (every zero is \<open>+0\<close>).
\<close>

datatype ieee = Fin rat | PInf | NInf | NaN

fun ieee_neg :: "ieee \<Rightarrow> ieee" where
  "ieee_neg (Fin x) = Fin (- x)"
| "ieee_neg PInf = NInf"
| "ieee_neg NInf = PInf"
| "ieee_neg NaN = NaN"

fun ieee_add :: "ieee \<Rightarrow> ieee \<Rightarrow> ieee" where
  "ieee_add NaN y = NaN"
| "ieee_add x NaN = NaN"
| "ieee_add (Fin x) (Fin y) = Fin (x + y)"
| "ieee_add (Fin x) y = y"
| "ieee_add PInf NInf = NaN"
| "ieee_add NInf PInf = NaN"
| "ieee_add x y = x"

fun ieee_mul :: "ieee \<Rightarrow> ieee \<Rightarrow> ieee" where
  "ieee_mul NaN y = NaN"
| "ieee_mul x NaN = NaN"
| "ieee_mul (Fin x) (Fin y) = Fin (x * y)"
| "ieee_mul (Fin x) y = (if x = 0 then NaN else if 0 < x then y else ieee_neg y)"
| "ieee_mul x (Fin y) = (if y = 0 then NaN else if 0 < y then x else ieee_neg x)"
| "ieee_mul PInf y = y"
| "ieee_mul NInf y = ieee_neg y"

fun ieee_div :: "ieee \<Rightarrow> ieee \<Rightarrow> ieee" where
  "ieee_div NaN y = NaN"
| "ieee_div x NaN = NaN"
| "ieee_div (Fin x) (Fin y) =
     (if y = 0 then (if x = 0 then NaN else if 0 < x then PInf else NInf) else Fin (x / y))"
| "ieee_div (Fin x) y = Fin 0"
| "ieee_div x (Fin y) = (if 0 \<le> y then x else ieee_neg x)"
| "ieee_div x y = NaN"

definition ieee_arith :: "ieee arith" where
  "ieee_arith =
     \<lparr>dzero = Fin 0, dadd = ieee_add, dmul = ieee_mul,
      dsub = (\<lambda>x y. ieee_add x (ieee_neg y)), ddiv = ieee_div,
      dint = (\<lambda>n. Fin (of_int n))\<rparr>"

subsection \<open>The type \<^verbatim>\<open>int\<close>\<close>

text \<open>
  \<^verbatim>\<open>/\<close> and \<^verbatim>\<open>%\<close> on \<^verbatim>\<open>int\<close> truncate towards zero and are undefined for a zero divisor
  and for \<^verbatim>\<open>INT_MIN / -1\<close>.  No other integer operation of the program can overflow on
  the paths below (every index computed is bounded by \<open>N\<close>), so \<^typ>\<open>int\<close> is used as it is.
\<close>

definition c_div :: "int \<Rightarrow> int \<Rightarrow> int option" where
  "c_div x y = (if y = 0 \<or> (x = - (2 ^ 31) \<and> y = - 1) then None else Some (x sdiv y))"

definition c_rem :: "int \<Rightarrow> int \<Rightarrow> int option" where
  "c_rem x y = (if y = 0 \<or> (x = - (2 ^ 31) \<and> y = - 1) then None else Some (x smod y))"

subsection \<open>Matrices: \<^verbatim>\<open>vector<vector<double>>\<close>\<close>

type_synonym 'a matrix = "'a list list"

text \<open>\<^verbatim>\<open>m[i][j]\<close> as an rvalue and as the target of an assignment; outside the vector it is undefined.\<close>

definition load :: "'a matrix \<Rightarrow> int \<Rightarrow> int \<Rightarrow> 'a option" where
  "load m i j =
     (if 0 \<le> i \<and> nat i < length m \<and> 0 \<le> j \<and> nat j < length (m ! nat i)
      then Some (m ! nat i ! nat j) else None)"

definition store :: "'a matrix \<Rightarrow> int \<Rightarrow> int \<Rightarrow> 'a \<Rightarrow> 'a matrix option" where
  "store m i j v =
     (if 0 \<le> i \<and> nat i < length m \<and> 0 \<le> j \<and> nat j < length (m ! nat i)
      then Some (m[nat i := (m ! nat i)[nat j := v]]) else None)"

text \<open>
  A strategy receives its three matrices by reference.  Its memory is the vector objects
  of the program, by address, and the addresses that its parameters \<^verbatim>\<open>a\<close>, \<^verbatim>\<open>b\<close> and
  \<^verbatim>\<open>c\<close> refer to; nothing in the signature keeps two of them from being the same object.
\<close>

record 'a mem =
  heap :: "nat \<Rightarrow> 'a matrix"
  ref_a :: nat
  ref_b :: nat
  ref_c :: nat

definition mat_a :: "'a mem \<Rightarrow> 'a matrix" where
  "mat_a m = heap m (ref_a m)"

definition mat_b :: "'a mem \<Rightarrow> 'a matrix" where
  "mat_b m = heap m (ref_b m)"

definition mat_c :: "'a mem \<Rightarrow> 'a matrix" where
  "mat_c m = heap m (ref_c m)"

text \<open>The object that \<^verbatim>\<open>c\<close> refers to gets a new value.\<close>

definition put_c :: "'a mem \<Rightarrow> 'a matrix \<Rightarrow> 'a mem" where
  "put_c m c' = m\<lparr>heap := (heap m)(ref_c m := c')\<rparr>"

text \<open>The three local vectors of \<^verbatim>\<open>main\<close>, three different objects, passed as
  \<^verbatim>\<open>a\<close>, \<^verbatim>\<open>b\<close> and \<^verbatim>\<open>c\<close>.\<close>

definition locals :: "'a matrix \<Rightarrow> 'a matrix \<Rightarrow> 'a matrix \<Rightarrow> 'a mem" where
  "locals a b c = \<lparr>heap = (\<lambda>r. [])(0 := a, 1 := b, 2 := c), ref_a = 0, ref_b = 1, ref_c = 2\<rparr>"

subsection \<open>The multiply-accumulate statement\<close>

text \<open>
  Every strategy executes one statement, \<^verbatim>\<open>c[i][j] = c[i][j] + a[i][k] * b[k][j]\<close>
  (written with \<^verbatim>\<open>+=\<close> in two of them), for a sequence of index triples \<open>(i, j, k)\<close>
  fixed by its loop nest.  The statement is two steps: it reads the three cells and
  computes the new value, then writes the value to \<^verbatim>\<open>c[i][j]\<close>.  Between the two steps
  another thread may run.
\<close>

type_synonym stmt = "int \<times> int \<times> int"

definition stmt_read :: "'a arith \<Rightarrow> 'a mem \<Rightarrow> stmt \<Rightarrow> (int \<times> int \<times> 'a) option" where
  "stmt_read ar m s =
     (case s of (i, j, k) \<Rightarrow>
        do { cij \<leftarrow> load (mat_c m) i j;
             aik \<leftarrow> load (mat_a m) i k;
             bkj \<leftarrow> load (mat_b m) k j;
             Some (i, j, dadd ar cij (dmul ar aik bkj)) })"

definition stmt_write :: "'a mem \<Rightarrow> int \<times> int \<times> 'a \<Rightarrow> 'a mem option" where
  "stmt_write m p =
     (case p of (i, j, v) \<Rightarrow>
        do { c' \<leftarrow> store (mat_c m) i j v; Some (put_c m c') })"

definition exec_stmt :: "'a arith \<Rightarrow> stmt \<Rightarrow> 'a mem \<Rightarrow> 'a mem option" where
  "exec_stmt ar s m = do { p \<leftarrow> stmt_read ar m s; stmt_write m p }"

text \<open>A loop nest without a pragma: its statements one after the other.\<close>

fun run_stmts :: "'a arith \<Rightarrow> stmt list \<Rightarrow> 'a mem \<Rightarrow> 'a mem option" where
  "run_stmts ar [] m = Some m"
| "run_stmts ar (s # ss) m = do { m' \<leftarrow> exec_stmt ar s m; run_stmts ar ss m' }"

subsection \<open>\<^verbatim>\<open>#pragma omp parallel for num_threads(nThreads)\<close>\<close>

text \<open>
  A thread of the team is the value it has computed and not yet written, if any, and the
  statements it still has to execute (its loop variables are private).  A step of a thread
  is one read or one write.
\<close>

type_synonym 'a thread = "(int \<times> int \<times> 'a) option \<times> stmt list"

definition thread_step :: "'a arith \<Rightarrow> 'a thread \<Rightarrow> 'a mem \<Rightarrow> ('a thread \<times> 'a mem) option" where
  "thread_step ar th m =
     (case th of
        (Some p, prog) \<Rightarrow> do { m' \<leftarrow> stmt_write m p; Some ((None, prog), m') }
      | (None, []) \<Rightarrow> Some (th, m)
      | (None, s # prog) \<Rightarrow> do { p \<leftarrow> stmt_read ar m s; Some ((Some p, prog), m) })"

definition thread_finish :: "'a arith \<Rightarrow> 'a thread \<Rightarrow> 'a mem \<Rightarrow> 'a mem option" where
  "thread_finish ar th m =
     (case th of (pend, prog) \<Rightarrow>
        do { m1 \<leftarrow> (case pend of None \<Rightarrow> Some m | Some p \<Rightarrow> stmt_write m p);
             run_stmts ar prog m1 })"

text \<open>The join at the end of the region: every thread runs to its end.\<close>

fun join_threads :: "'a arith \<Rightarrow> 'a thread list \<Rightarrow> 'a mem \<Rightarrow> 'a mem option" where
  "join_threads ar [] m = Some m"
| "join_threads ar (th # ths) m = do { m' \<leftarrow> thread_finish ar th m; join_threads ar ths m' }"

text \<open>
  The interleaving is chosen by the scheduler, a list of thread numbers: the thread named
  next makes one step (a number outside the team, or of a thread that has finished, is
  skipped), and when the list is used up the threads are joined.  Every interleaving of the
  threads' steps is the run of some such list.
\<close>

fun run_threads :: "'a arith \<Rightarrow> nat list \<Rightarrow> 'a thread list \<Rightarrow> 'a mem \<Rightarrow> 'a mem option" where
  "run_threads ar [] ths m = join_threads ar ths m"
| "run_threads ar (t # sg) ths m =
     (if t < length ths
      then do { (th', m') \<leftarrow> thread_step ar (ths ! t) m;
                run_threads ar sg (ths[t := th']) m' }
      else run_threads ar sg ths m)"

text \<open>
  The same executions without a scheduler: as long as some thread has not finished, any
  such thread may make the next step.
\<close>

inductive team_run :: "'a arith \<Rightarrow> 'a thread list \<Rightarrow> 'a mem \<Rightarrow> 'a mem \<Rightarrow> bool" where
  finished: "list_all (\<lambda>th. th = (None, [])) ths \<Longrightarrow> team_run ar ths m m"
| step: "t < length ths \<Longrightarrow> ths ! t \<noteq> (None, []) \<Longrightarrow> thread_step ar (ths ! t) m = Some (th', m') \<Longrightarrow>
         team_run ar (ths[t := th']) m' m'' \<Longrightarrow> team_run ar ths m m''"

text \<open>
  A schedule is the distribution of the iterations over the team (iteration \<open>x\<close> goes to
  thread \<open>owner x mod n\<close>; each thread takes its iterations in ascending order) and the
  interleaving.  Both are left to the OpenMP runtime, so both are arbitrary here.
\<close>

type_synonym sched = "(nat \<Rightarrow> nat) \<times> nat list"

definition thread_programs :: "(nat \<Rightarrow> nat) \<Rightarrow> nat \<Rightarrow> stmt list list \<Rightarrow> stmt list list" where
  "thread_programs owner n iters =
     map (\<lambda>t. concat [iters ! x. x \<leftarrow> [0..<length iters], owner x mod n = t]) [0..<n]"

definition omp_parallel_for ::
  "'a arith \<Rightarrow> sched \<Rightarrow> int \<Rightarrow> stmt list list \<Rightarrow> 'a mem \<Rightarrow> 'a mem option" where
  "omp_parallel_for ar sch nThreads iters m =
     (if nThreads \<le> 0 then None
      else run_threads ar (snd sch)
             (map (\<lambda>prog. (None, prog)) (thread_programs (fst sch) (nat nThreads) iters)) m)"

subsection \<open>The environment and the observable state\<close>

record 'a Result =
  timestamp :: 'a
  threads :: int

text \<open>What is written to \<^verbatim>\<open>cout\<close>: one item per \<^verbatim>\<open><<\<close>.  A \<^verbatim>\<open>double\<close> is written in
  fixed notation with the precision in force, \<open>Dbl precision value\<close>; \<open>What\<close> is the
  text of \<^verbatim>\<open>e.what()\<close>.\<close>

datatype 'a item = Endl | Str string | Num int | Dbl nat 'a | Setw nat | What

datatype call = Blocked int int int | Standard int int | Sequential int

text \<open>
  What the program gets from outside: the successive values of \<^verbatim>\<open>omp_get_wtime()\<close>, the
  successive draws of the random distribution, the schedule of each parallel region, and
  for each pass through the prompt loop the values of \<^verbatim>\<open>N\<close>, \<^verbatim>\<open>NEIB\<close> and \<^verbatim>\<open>method\<close> after
  the three \<^verbatim>\<open>cin >>\<close>.
\<close>

record 'a env =
  wtime :: "nat \<Rightarrow> 'a"
  rand :: "nat \<Rightarrow> 'a"
  sched :: "nat \<Rightarrow> sched"
  inputs :: "nat \<Rightarrow> int \<times> int \<times> int"

text \<open>
  The state: the output so far, the precision of \<^verbatim>\<open>cout\<close>, how much of each part of the
  environment has been consumed, and (a ghost field) the strategy calls made so far.
\<close>

record 'a world =
  out :: "'a item list"
  prec :: nat
  ticks :: nat
  draws :: nat
  regions :: nat
  reads :: nat
  calls :: "call list"

definition print :: "'a item list \<Rightarrow> 'a world \<Rightarrow> 'a world" where
  "print items w = w\<lparr>out := out w @ items\<rparr>"

definition omp_get_wtime :: "'a env \<Rightarrow> 'a world \<Rightarrow> 'a \<times> 'a world" where
  "omp_get_wtime e w = (wtime e (ticks w), w\<lparr>ticks := Suc (ticks w)\<rparr>)"

subsection \<open>The three strategies\<close>

definition block_range :: "int \<Rightarrow> int \<Rightarrow> int list" where
  "block_range NEIB p = [p * NEIB..p * NEIB + NEIB - 1]"

text \<open>The body of the loop over \<open>q\<close>, which the pragma distributes: the loops over
  \<open>r\<close>, \<open>i\<close>, \<open>j\<close>, \<open>k\<close> for one \<open>p\<close> and one \<open>q\<close>.\<close>

definition blocked_iteration :: "int \<Rightarrow> int \<Rightarrow> int \<Rightarrow> int \<Rightarrow> stmt list" where
  "blocked_iteration NB NEIB p q =
     [(i, j, k). r \<leftarrow> [0..NB - 1], i \<leftarrow> block_range NEIB p,
                 j \<leftarrow> block_range NEIB q, k \<leftarrow> block_range NEIB r]"

text \<open>The loop over \<open>p\<close>: one parallel region after the other.\<close>

fun blocked_regions ::
  "'a arith \<Rightarrow> (nat \<Rightarrow> sched) \<Rightarrow> int \<Rightarrow> int \<Rightarrow> int \<Rightarrow> int list \<Rightarrow> nat \<Rightarrow> 'a mem
   \<Rightarrow> ('a mem \<times> nat) option" where
  "blocked_regions ar sch nThreads NB NEIB [] reg m = Some (m, reg)"
| "blocked_regions ar sch nThreads NB NEIB (p # ps) reg m =
     do { m' \<leftarrow> omp_parallel_for ar (sch reg) nThreads
                  (map (blocked_iteration NB NEIB p) [0..NB - 1]) m;
          blocked_regions ar sch nThreads NB NEIB ps (Suc reg) m' }"

definition blockedMatrixMultiplication ::
  "'a arith \<Rightarrow> 'a env \<Rightarrow> int \<Rightarrow> int \<Rightarrow> int \<Rightarrow> 'a mem \<times> 'a world
   \<Rightarrow> ('a Result \<times> 'a mem \<times> 'a world) option" where
  "blockedMatrixMultiplication ar e N NEIB nThreads mw =
     (case mw of (m, w) \<Rightarrow>
        do { NB \<leftarrow> c_div N NEIB;
             let (now, w1) = omp_get_wtime e (w\<lparr>calls := calls w @ [Blocked N NEIB nThreads]\<rparr>);
             (m', reg) \<leftarrow> blocked_regions ar (sched e) nThreads NB NEIB [0..NB - 1] (regions w1) m;
             let (t, w2) = omp_get_wtime e (w1\<lparr>regions := reg\<rparr>);
             Some (\<lparr>timestamp = dsub ar t now, threads = nThreads\<rparr>, m', w2) })"

text \<open>The body of the loop over \<open>i\<close>, which the pragma distributes.\<close>

definition standard_iteration :: "int \<Rightarrow> int \<Rightarrow> stmt list" where
  "standard_iteration N i = [(i, j, k). j \<leftarrow> [0..N - 1], k \<leftarrow> [0..N - 1]]"

definition standardMatrixMultiplication ::
  "'a arith \<Rightarrow> 'a env \<Rightarrow> int \<Rightarrow> int \<Rightarrow> 'a mem \<times> 'a world
   \<Rightarrow> ('a Result \<times> 'a mem \<times> 'a world) option" where
  "standardMatrixMultiplication ar e N nThreads mw =
     (case mw of (m, w) \<Rightarrow>
        do { let (now, w1) = omp_get_wtime e (w\<lparr>calls := calls w @ [Standard N nThreads]\<rparr>);
             m' \<leftarrow> omp_parallel_for ar (sched e (regions w1)) nThreads
                    (map (standard_iteration N) [0..N - 1]) m;
             let (t, w2) = omp_get_wtime e (w1\<lparr>regions := Suc (regions w1)\<rparr>);
             Some (\<lparr>timestamp = dsub ar t now, threads = nThreads\<rparr>, m', w2) })"

definition sequential_loops :: "int \<Rightarrow> stmt list" where
  "sequential_loops N = [(i, j, k). i \<leftarrow> [0..N - 1], j \<leftarrow> [0..N - 1], k \<leftarrow> [0..N - 1]]"

definition sequentialMatrixMultiplication ::
  "'a arith \<Rightarrow> 'a env \<Rightarrow> int \<Rightarrow> 'a mem \<times> 'a world
   \<Rightarrow> ('a Result \<times> 'a mem \<times> 'a world) option" where
  "sequentialMatrixMultiplication ar e N mw =
     (case mw of (m, w) \<Rightarrow>
        do { let (now, w1) = omp_get_wtime e (w\<lparr>calls := calls w @ [Sequential N]\<rparr>);
             m' \<leftarrow> run_stmts ar (sequential_loops N) m;
             let (t, w2) = omp_get_wtime e w1;
             Some (\<lparr>timestamp = dsub ar t now, threads = 1\<rparr>, m', w2) })"

subsection \<open>The helpers of \<^verbatim>\<open>main\<close>\<close>

fun init_cells ::
  "'a arith \<Rightarrow> 'a env \<Rightarrow> bool \<Rightarrow> (int \<times> int) list \<Rightarrow> 'a matrix \<Rightarrow> 'a world
   \<Rightarrow> ('a matrix \<times> 'a world) option" where
  "init_cells ar e random [] mx w = Some (mx, w)"
| "init_cells ar e random ((i, j) # cs) mx w =
     (if random
      then do { mx' \<leftarrow> store mx i j (rand e (draws w));
                init_cells ar e random cs mx' (w\<lparr>draws := Suc (draws w)\<rparr>) }
      else do { mx' \<leftarrow> store mx i j (dint ar (i + j + 1));
                init_cells ar e random cs mx' w })"

definition initializeMatrix ::
  "'a arith \<Rightarrow> 'a env \<Rightarrow> 'a matrix \<Rightarrow> int \<Rightarrow> bool \<Rightarrow> 'a world \<Rightarrow> ('a matrix \<times> 'a world) option" where
  "initializeMatrix ar e mx sz random w =
     init_cells ar e random [(i, j). i \<leftarrow> [0..sz - 1], j \<leftarrow> [0..sz - 1]] mx w"

fun print_cells :: "'a matrix \<Rightarrow> int \<Rightarrow> int list \<Rightarrow> 'a world \<Rightarrow> 'a world option" where
  "print_cells mx i [] w = Some w"
| "print_cells mx i (j # js) w =
     do { v \<leftarrow> load mx i j;
          print_cells mx i js (print [Setw 8, Dbl (prec w) v, Str '' ''] w) }"

fun print_rows :: "'a matrix \<Rightarrow> int \<Rightarrow> int \<Rightarrow> int list \<Rightarrow> 'a world \<Rightarrow> 'a world option" where
  "print_rows mx sz maxDisplay [] w = Some w"
| "print_rows mx sz maxDisplay (i # is) w =
     do { w1 \<leftarrow> print_cells mx i [0..min sz maxDisplay - 1] (print [Str ''   ''] w);
          print_rows mx sz maxDisplay is
            (print ((if sz > maxDisplay then [Str ''...''] else []) @ [Endl]) w1) }"

definition printMatrix :: "'a matrix \<Rightarrow> int \<Rightarrow> int \<Rightarrow> 'a world \<Rightarrow> 'a world option" where
  "printMatrix mx sz maxDisplay w =
     do { w1 \<leftarrow> print_rows mx sz maxDisplay [0..min sz maxDisplay - 1] w;
          Some (print ((if sz > maxDisplay then [Str ''   ...'', Endl] else []) @ [Endl]) w1) }"

text \<open>The reset of \<^verbatim>\<open>c\<close> before a run: \<^verbatim>\<open>c[row][col] = 0.0\<close> for every row and column.\<close>

fun reset_cells :: "'a arith \<Rightarrow> (int \<times> int) list \<Rightarrow> 'a matrix \<Rightarrow> 'a matrix option" where
  "reset_cells ar [] c = Some c"
| "reset_cells ar ((row, col) # cs) c = do { c' \<leftarrow> store c row col (dzero ar); reset_cells ar cs c' }"

definition reset_matrix :: "'a arith \<Rightarrow> int \<Rightarrow> 'a matrix \<Rightarrow> 'a matrix option" where
  "reset_matrix ar N c = reset_cells ar [(row, col). row \<leftarrow> [0..N - 1], col \<leftarrow> [0..N - 1]] c"

text \<open>The constructor \<^verbatim>\<open>vector<vector<double>>(N, vector<double>(N, v))\<close>; \<open>None\<close> is
  the exception it throws for a negative size.  (Exhausted memory is not modelled.)\<close>

definition new_matrix :: "int \<Rightarrow> 'a \<Rightarrow> 'a matrix option" where
  "new_matrix N v = (if N < 0 then None else Some (replicate (nat N) (replicate (nat N) v)))"

definition tab :: string where
  "tab = [CHR 0x09]"

definition divisibility_error :: string where
  "divisibility_error = ''Error: Matrix size must be divisible by block size for blocked method!''"

definition prompts :: "'a item list" where
  "prompts = [Str ''   Matrix size (N): '', Str ''   Block size (NEIB): '',
              Str ''   Method (1 - blocked, 2 - standard, 3 - sequential): '']"

definition maxThreads :: int where
  "maxThreads = 16"

text \<open>The loop over the thread counts, lines 137 to 153.\<close>

fun sweep ::
  "'a arith \<Rightarrow> 'a env \<Rightarrow> int \<Rightarrow> int \<Rightarrow> int \<Rightarrow> int list
   \<Rightarrow> 'a mem \<times> 'a world \<times> 'a \<times> (int \<times> 'a Result) list
   \<Rightarrow> ('a mem \<times> 'a world \<times> 'a \<times> (int \<times> 'a Result) list) option" where
  "sweep ar e N NEIB method [] st = Some st"
| "sweep ar e N NEIB method (i # is) st =
     (case st of (m, w, sequentialTime, results) \<Rightarrow>
        do { c0 \<leftarrow> reset_matrix ar N (mat_c m);
             (result, m', w') \<leftarrow>
               (if method = 1
                then blockedMatrixMultiplication ar e N NEIB (i + 1) (put_c m c0, w)
                else standardMatrixMultiplication ar e N (i + 1) (put_c m c0, w));
             sweep ar e N NEIB method is
               (m', w', (if i = 0 then timestamp result else sequentialTime),
                results @ [(i + 1, result)]) })"

text \<open>The loop that prints the table, lines 161 to 172.\<close>

fun print_results :: "'a arith \<Rightarrow> 'a \<Rightarrow> (int \<times> 'a Result) list \<Rightarrow> 'a world \<Rightarrow> 'a world" where
  "print_results ar sequentialTime [] w = w"
| "print_results ar sequentialTime (result # rs) w =
     (let currentTime = timestamp (snd result);
          speedup = ddiv ar sequentialTime currentTime;
          efficiency = ddiv ar speedup (dint ar (fst result))
      in print_results ar sequentialTime rs
           (print [Str ''   '', Num (fst result),
                   Str (tab @ tab), Dbl 6 currentTime,
                   Str (tab @ tab), Dbl 2 speedup,
                   Str (tab @ tab), Dbl 2 efficiency, Endl] w \<lparr>prec := 2\<rparr>))"

subsection \<open>\<^verbatim>\<open>main\<close>\<close>

text \<open>How one pass through the body of the \<^verbatim>\<open>do\<close> loop ends: at the end of the body or
  at a \<^verbatim>\<open>continue\<close>, at a \<^verbatim>\<open>return\<close>, or with an exception.\<close>

datatype flow = Next | Return int | Throw

definition do_body ::
  "'a arith \<Rightarrow> 'a env \<Rightarrow> bool \<Rightarrow> int \<Rightarrow> int \<Rightarrow> int \<Rightarrow> int \<Rightarrow> 'a world \<Rightarrow> ('a world \<times> flow) option" where
  "do_body ar e batchMode N NEIB method specificThreads w =
     do { r \<leftarrow> (if method = 1 then c_rem N NEIB else Some 0);
          if method = 1 \<and> r \<noteq> 0
          then (if batchMode
                then Some (print [Str divisibility_error, Endl] w,
                           Return 1)
                else Some (print [Str (''   '' @ divisibility_error), Endl] w,
                           Next))
          else
            (case (new_matrix N (dzero ar), new_matrix N (dzero ar), new_matrix N (dzero ar)) of
               (Some a0, Some b0, Some c) \<Rightarrow>
                 do { (a, w1) \<leftarrow> initializeMatrix ar e a0 N True w;
                      (b, w2) \<leftarrow> initializeMatrix ar e b0 N True w1;
                      w3 \<leftarrow> (if \<not> batchMode
                             then do { wa \<leftarrow> printMatrix a N 5
                                               (print [Endl, Str ''   Sample of matrix A (top-left corner):'', Endl] w2);
                                       printMatrix b N 5
                                         (print [Str ''   Sample of matrix B (top-left corner):'', Endl] wa) }
                             else Some w2);
                      if batchMode \<and> specificThreads > 0
                      then
                        do { c0 \<leftarrow> reset_matrix ar N c;
                             let m = locals a b c0;
                             (result, m', w4) \<leftarrow>
                               (if method = 3 then sequentialMatrixMultiplication ar e N (m, w3)
                                else if method = 1
                                then blockedMatrixMultiplication ar e N NEIB specificThreads (m, w3)
                                else standardMatrixMultiplication ar e N specificThreads (m, w3));
                             Some (print [Num method, Str '','', Num specificThreads, Str '','',
                                          Dbl 8 (timestamp result), Endl] w4 \<lparr>prec := 8\<rparr>,
                                   Return 0) }
                      else
                        do { (m', w4, sequentialTime, results) \<leftarrow>
                               (if method = 3
                                then
                                  do { c0 \<leftarrow> reset_matrix ar N c;
                                       (result, m', w') \<leftarrow>
                                         sequentialMatrixMultiplication ar e N
                                           (locals a b c0, w3);
                                       Some (m', w', timestamp result, [(1, result)]) }
                                else sweep ar e N NEIB method [0..maxThreads - 1]
                                       (locals a b c, w3, dzero ar, []));
                             let w5 = print [Endl, Str ''   Results:'', Endl,
                                             Str (''   Threads'' @ tab @ ''Time (sec)'' @ tab @ ''Speedup''
                                                  @ tab @ tab @ ''Efficiency''), Endl,
                                             Str (''   -------'' @ tab @ ''---------'' @ tab @ ''-------''
                                                  @ tab @ tab @ ''----------''), Endl] w4;
                             let w6 = print_results ar sequentialTime results w5;
                             w7 \<leftarrow> (if \<not> batchMode
                                    then do { wc \<leftarrow> printMatrix (mat_c m') N 5
                                                      (print [Str ''   Sample of result matrix C (top-left corner):'', Endl] w6);
                                              Some (print [Endl] wc) }
                                    else Some w6);
                             Some (w7, Next) } }
             | _ \<Rightarrow> Some (w, Throw)) }"

text \<open>
  The prompt loop, lines 52 to 64.  A loop that can go on forever takes fuel, one unit
  per pass; the result is the state and, if the loop was left, the values of \<^verbatim>\<open>N\<close>,
  \<^verbatim>\<open>NEIB\<close> and \<^verbatim>\<open>method\<close> it was left with, or \<open>None\<close> if the fuel ran out first.
\<close>

fun prompt_loop :: "'a env \<Rightarrow> nat \<Rightarrow> 'a world \<Rightarrow> ('a world \<times> (int \<times> int \<times> int) option) option" where
  "prompt_loop e 0 w = Some (w, None)"
| "prompt_loop e (Suc fuel) w =
     (case inputs e (reads w) of (N, NEIB, method) \<Rightarrow>
        (let w' = print prompts w \<lparr>reads := Suc (reads w)\<rparr>
         in do { r \<leftarrow> (if method = 1 then c_rem N NEIB else Some 0);
                 if method = 1 \<and> r \<noteq> 0
                 then prompt_loop e fuel
                        (print [Str (''   '' @ divisibility_error), Endl] w')
                 else prompt_loop e fuel w' }))"

text \<open>How \<^verbatim>\<open>main\<close> ends: with an exit status, or not at all (the fuel ran out).\<close>

datatype ending = Exit int | OutOfFuel

text \<open>The \<^verbatim>\<open>do\<close> loop, lines 68 to 179, with what follows it: the handler and \<^verbatim>\<open>return 0\<close>.\<close>

fun do_loop ::
  "'a arith \<Rightarrow> 'a env \<Rightarrow> nat \<Rightarrow> bool \<Rightarrow> int \<Rightarrow> int \<Rightarrow> int \<Rightarrow> int \<Rightarrow> 'a world
   \<Rightarrow> ('a world \<times> ending) option" where
  "do_loop ar e 0 batchMode N NEIB method specificThreads w = Some (w, OutOfFuel)"
| "do_loop ar e (Suc fuel) batchMode N NEIB method specificThreads w =
     do { (w', fl) \<leftarrow> do_body ar e batchMode N NEIB method specificThreads w;
          (case fl of
             Return status \<Rightarrow> Some (w', Exit status)
           | Throw \<Rightarrow> Some (print [What, Endl] w', Exit 0)
           | Next \<Rightarrow>
               if \<not> batchMode
               then do_loop ar e fuel batchMode N NEIB method specificThreads w'
               else Some (w', Exit 0)) }"

text \<open>The arguments: none (any \<^verbatim>\<open>argc\<close> other than 5), or the four numbers that
  \<^verbatim>\<open>atoi\<close> makes of them, as the values of \<^verbatim>\<open>N\<close>, \<^verbatim>\<open>NEIB\<close>, \<^verbatim>\<open>method\<close> and
  \<^verbatim>\<open>specificThreads\<close>.\<close>

datatype args = Interactive | Batch int int int int

definition initial_world :: "'a world" where
  "initial_world = \<lparr>out = [], prec = 6, ticks = 0, draws = 0, regions = 0, reads = 0, calls = []\<rparr>"

definition main :: "'a arith \<Rightarrow> 'a env \<Rightarrow> nat \<Rightarrow> args \<Rightarrow> ('a world \<times> ending) option" where
  "main ar e fuel ag =
     (let w0 = print [Endl] initial_world \<lparr>prec := 8\<rparr> in
      case ag of
        Batch N NEIB method specificThreads \<Rightarrow>
          do_loop ar e fuel True N NEIB method specificThreads w0
      | Interactive \<Rightarrow>
          do { (w1, left) \<leftarrow> prompt_loop e fuel w0;
               (case left of
                  None \<Rightarrow> Some (w1, OutOfFuel)
                | Some (N, NEIB, method) \<Rightarrow> do_loop ar e fuel False N NEIB method 0 w1) })"

section \<open>Notions used in the statements and proofs\<close>

definition cell :: "'a matrix \<Rightarrow> int \<Rightarrow> int \<Rightarrow> 'a" where
  "cell m i j = m ! nat i ! nat j"

definition upd :: "'a matrix \<Rightarrow> int \<Rightarrow> int \<Rightarrow> 'a \<Rightarrow> 'a matrix" where
  "upd m i j v = m[nat i := (m ! nat i)[nat j := v]]"

definition square :: "int \<Rightarrow> 'a matrix \<Rightarrow> bool" where
  "square N m \<longleftrightarrow> length m = nat N \<and> list_all (\<lambda>row. length row = nat N) m"

definition wf_mem :: "int \<Rightarrow> 'a mem \<Rightarrow> bool" where
  "wf_mem N m \<longleftrightarrow>
     ref_c m \<noteq> ref_a m \<and> ref_c m \<noteq> ref_b m \<and>
     square N (mat_a m) \<and> square N (mat_b m) \<and> square N (mat_c m)"

definition inb :: "int \<Rightarrow> stmt \<Rightarrow> bool" where
  "inb N s = (case s of (i, j, k) \<Rightarrow> 0 \<le> i \<and> i < N \<and> 0 \<le> j \<and> j < N \<and> 0 \<le> k \<and> k < N)"

definition ks_of :: "stmt list \<Rightarrow> int \<Rightarrow> int \<Rightarrow> int list" where
  "ks_of ss i j = [k. (i', j', k) \<leftarrow> ss, i' = i \<and> j' = j]"

definition dot :: "'a arith \<Rightarrow> 'a matrix \<Rightarrow> 'a matrix \<Rightarrow> int \<Rightarrow> int \<Rightarrow> int list \<Rightarrow> 'a \<Rightarrow> 'a" where
  "dot ar a b i j ks v = foldl (\<lambda>acc k. dadd ar acc (dmul ar (cell a i k) (cell b k j))) v ks"

definition cells_rel :: "'a arith \<Rightarrow> int \<Rightarrow> stmt list \<Rightarrow> 'a mem \<Rightarrow> 'a mem \<Rightarrow> bool" where
  "cells_rel ar N ss m m' \<longleftrightarrow>
     wf_mem N m' \<and> mat_a m' = mat_a m \<and> mat_b m' = mat_b m \<and>
     (\<forall>i j. 0 \<le> i \<and> i < N \<and> 0 \<le> j \<and> j < N \<longrightarrow>
        cell (mat_c m') i j = dot ar (mat_a m) (mat_b m) i j (ks_of ss i j) (cell (mat_c m) i j))"

definition stmt_cells :: "stmt list \<Rightarrow> (int \<times> int) set" where
  "stmt_cells ss = (\<lambda>(i, j, k). (i, j)) ` set ss"

definition th_inb :: "int \<Rightarrow> 'a thread \<Rightarrow> bool" where
  "th_inb N th =
     (case th of (pend, prog) \<Rightarrow>
        (case pend of None \<Rightarrow> True | Some (i, j, v) \<Rightarrow> 0 \<le> i \<and> i < N \<and> 0 \<le> j \<and> j < N)
        \<and> list_all (inb N) prog)"

definition th_cells :: "'a thread \<Rightarrow> (int \<times> int) set" where
  "th_cells th =
     (case th of (pend, prog) \<Rightarrow>
        (case pend of None \<Rightarrow> {} | Some (i, j, v) \<Rightarrow> {(i, j)}) \<union> stmt_cells prog)"

definition th_final :: "'a arith \<Rightarrow> 'a matrix \<Rightarrow> 'a matrix \<Rightarrow> int \<Rightarrow> int \<Rightarrow> 'a thread \<Rightarrow> 'a \<Rightarrow> 'a" where
  "th_final ar a b i j th v0 =
     (case th of (pend, prog) \<Rightarrow>
        dot ar a b i j (ks_of prog i j)
          (case pend of None \<Rightarrow> v0 | Some (i', j', v) \<Rightarrow> if i' = i \<and> j' = j then v else v0))"

definition final :: "'a arith \<Rightarrow> 'a matrix \<Rightarrow> 'a matrix \<Rightarrow> int \<Rightarrow> int \<Rightarrow> 'a thread list \<Rightarrow> 'a \<Rightarrow> 'a" where
  "final ar a b i j ths v = fold (th_final ar a b i j) ths v"

definition disjoint_threads :: "'a thread list \<Rightarrow> bool" where
  "disjoint_threads ths \<longleftrightarrow>
     (\<forall>t t'. t < length ths \<and> t' < length ths \<and> t \<noteq> t' \<longrightarrow>
        th_cells (ths ! t) \<inter> th_cells (ths ! t') = {})"

definition disjoint_iters :: "stmt list list \<Rightarrow> bool" where
  "disjoint_iters iters \<longleftrightarrow>
     (\<forall>x y. x < length iters \<and> y < length iters \<and> x \<noteq> y \<longrightarrow>
        stmt_cells (iters ! x) \<inter> stmt_cells (iters ! y) = {})"

definition frame_rel :: "int \<Rightarrow> 'a mem \<Rightarrow> 'a mem \<Rightarrow> bool" where
  "frame_rel N m m' \<longleftrightarrow> wf_mem N m' \<and> mat_a m' = mat_a m \<and> mat_b m' = mat_b m"

definition loop3 :: "int list \<Rightarrow> int list \<Rightarrow> int list \<Rightarrow> stmt list" where
  "loop3 is js ks = [(i, j, k). i \<leftarrow> is, j \<leftarrow> js, k \<leftarrow> ks]"

definition mac_product :: "'a arith \<Rightarrow> int \<Rightarrow> 'a matrix \<Rightarrow> 'a matrix \<Rightarrow> 'a matrix \<Rightarrow> 'a matrix" where
  "mac_product ar N a b c0 =
     map (\<lambda>i. map (\<lambda>j. foldl (\<lambda>acc k. dadd ar acc (dmul ar (cell a i k) (cell b k j)))
                          (cell c0 i j) [0..N - 1]) [0..N - 1]) [0..N - 1]"

definition dense_product :: "'a arith \<Rightarrow> int \<Rightarrow> 'a matrix \<Rightarrow> 'a matrix \<Rightarrow> 'a matrix" where
  "dense_product ar N a b =
     map (\<lambda>i. map (\<lambda>j. foldl (\<lambda>acc k. dadd ar acc (dmul ar (cell a i k) (cell b k j)))
                          (dzero ar) [0..N - 1]) [0..N - 1]) [0..N - 1]"

definition zero_matrix :: "'a arith \<Rightarrow> int \<Rightarrow> 'a matrix" where
  "zero_matrix ar N = replicate (nat N) (replicate (nat N) (dzero ar))"

definition real_arith :: "real arith" where
  "real_arith = \<lparr>dzero = 0, dadd = (+), dmul = (*), dsub = (-), ddiv = (/), dint = of_int\<rparr>"

definition result_c :: "('a Result \<times> 'a mem \<times> 'a world) option \<Rightarrow> 'a matrix option" where
  "result_c res = map_option (\<lambda>(r, m', w'). mat_c m') res"

definition same_but_c :: "'a mem \<Rightarrow> 'a mem \<Rightarrow> bool" where
  "same_but_c m m' \<longleftrightarrow>
     ref_a m' = ref_a m \<and> ref_b m' = ref_b m \<and> ref_c m' = ref_c m \<and>
     (\<forall>r. r \<noteq> ref_c m \<longrightarrow> heap m' r = heap m r)"

definition others_kept :: "'a mem \<Rightarrow> ('a Result \<times> 'a mem \<times> 'a world) option \<Rightarrow> bool" where
  "others_kept m res = (case res of None \<Rightarrow> True | Some (r, m', w') \<Rightarrow> same_but_c m m')"

definition inputs_kept :: "'a mem \<Rightarrow> ('a Result \<times> 'a mem \<times> 'a world) option \<Rightarrow> bool" where
  "inputs_kept m res =
     (case res of None \<Rightarrow> True | Some (r, m', w') \<Rightarrow> mat_a m' = mat_a m \<and> mat_b m' = mat_b m)"

definition demo_env :: "ieee env" where
  "demo_env =
     \<lparr>wtime = (\<lambda>n. Fin (of_nat n)), rand = (\<lambda>n. Fin 1),
      sched = (\<lambda>r. (\<lambda>x. x, [0, 1, 1, 0, 1])), inputs = (\<lambda>k. (4, 2, 1))\<rparr>"

definition demo_mem :: "ieee matrix \<Rightarrow> ieee mem" where
  "demo_mem c0 = locals [[Fin 1, Fin 2], [Fin 3, Fin 4]] [[Fin 5, Fin 6], [Fin 7, Fin 8]] c0"

definition ones_mem :: "ieee mem" where
  "ones_mem =
     locals (replicate 4 (replicate 4 (Fin 1))) (replicate 4 (replicate 4 (Fin 1)))
       (replicate 4 (replicate 4 (Fin 0)))"

fun sweep_results :: "'a arith \<Rightarrow> 'a env \<Rightarrow> nat \<Rightarrow> int list \<Rightarrow> (int \<times> 'a Result) list" where
  "sweep_results ar e t [] = []"
| "sweep_results ar e t (i # is) =
     (i + 1, \<lparr>timestamp = dsub ar (wtime e (Suc t)) (wtime e t), threads = i + 1\<rparr>)
     # sweep_results ar e (t + 2) is"

fun sweep_time :: "'a arith \<Rightarrow> 'a env \<Rightarrow> nat \<Rightarrow> int list \<Rightarrow> 'a \<Rightarrow> 'a" where
  "sweep_time ar e t [] st = st"
| "sweep_time ar e t (i # is) st =
     sweep_time ar e (t + 2) is (if i = 0 then dsub ar (wtime e (Suc t)) (wtime e t) else st)"

definition sweep_call :: "int \<Rightarrow> int \<Rightarrow> int \<Rightarrow> int \<Rightarrow> call" where
  "sweep_call N NEIB method i = (if method = 1 then Blocked N NEIB (i + 1) else Standard N (i + 1))"

definition table_row :: "'a arith \<Rightarrow> 'a \<Rightarrow> int \<times> 'a Result \<Rightarrow> 'a item list" where
  "table_row ar sequentialTime result =
     [Str ''   '', Num (fst result),
      Str (tab @ tab), Dbl 6 (timestamp (snd result)),
      Str (tab @ tab), Dbl 2 (ddiv ar sequentialTime (timestamp (snd result))),
      Str (tab @ tab), Dbl 2 (ddiv ar (ddiv ar sequentialTime (timestamp (snd result))) (dint ar (fst result))),
      Endl]"

definition table_header :: "'a item list" where
  "table_header =
     [Endl, Str ''   Results:'', Endl,
      Str (''   Threads'' @ tab @ ''Time (sec)'' @ tab @ ''Speedup'' @ tab @ tab @ ''Efficiency''), Endl,
      Str (''   -------'' @ tab @ ''---------'' @ tab @ ''-------'' @ tab @ tab @ ''----------''), Endl]"

definition call_threads :: "call \<Rightarrow> int" where
  "call_threads c = (case c of Blocked N NEIB n \<Rightarrow> n | Standard N n \<Rightarrow> n | Sequential N \<Rightarrow> 1)"

definition single_call :: "int \<Rightarrow> int \<Rightarrow> int \<Rightarrow> int \<Rightarrow> call" where
  "single_call N NEIB method n =
     (if method = 3 then Sequential N else if method = 1 then Blocked N NEIB n else Standard N n)"

definition sweep_calls :: "int \<Rightarrow> int \<Rightarrow> int \<Rightarrow> call list" where
  "sweep_calls N NEIB method =
     (if method = 3 then [Sequential N] else map (sweep_call N NEIB method) [0..maxThreads - 1])"

definition sweep_table :: "'a arith \<Rightarrow> 'a env \<Rightarrow> int \<Rightarrow> nat \<Rightarrow> (int \<times> 'a Result) list" where
  "sweep_table ar e method t =
     (if method = 3
      then [(1, \<lparr>timestamp = dsub ar (wtime e (Suc t)) (wtime e t), threads = 1\<rparr>)]
      else sweep_results ar e t [0..maxThreads - 1])"

definition csv_line :: "int \<Rightarrow> int \<Rightarrow> 'a \<Rightarrow> 'a item list" where
  "csv_line method n t = [Num method, Str '','', Num n, Str '','', Dbl 8 t, Endl]"

definition output_of :: "('a world \<times> ending) option \<Rightarrow> 'a item list option" where
  "output_of res = map_option (\<lambda>(w, en). out w) res"

definition valid_config :: "int \<Rightarrow> int \<Rightarrow> int \<Rightarrow> bool" where
  "valid_config N NEIB method \<longleftrightarrow> 0 \<le> N \<and> (method = 1 \<longrightarrow> NEIB \<noteq> 0 \<and> N smod NEIB = 0)"

definition stuck_env :: "ieee env" where
  "stuck_env =
     \<lparr>wtime = (\<lambda>n. Fin 7), rand = (\<lambda>n. Fin 1),
      sched = (\<lambda>r. (\<lambda>x. x, [])), inputs = (\<lambda>k. (5, 2, 1))\<rparr>"

definition nan_row :: "int \<Rightarrow> ieee item list" where
  "nan_row n =
     [Str ''   '', Num n, Str (tab @ tab), Dbl 6 (Fin 0),
      Str (tab @ tab), Dbl 2 NaN, Str (tab @ tab), Dbl 2 NaN, Endl]"

definition not_finite :: "ieee \<Rightarrow> bool" where
  "not_finite x = (case x of Fin r \<Rightarrow> False | _ \<Rightarrow> True)"

definition aliased_mem :: "ieee mem" where
  "aliased_mem = \<lparr>heap = (\<lambda>r. [])(0 := [[Fin 1]], 1 := [[Fin 1]]), ref_a = 0, ref_b = 1, ref_c = 0\<rparr>"

section \<open>Lemmas\<close>

lemma ks_of_Nil [simp]: "ks_of [] i j = []"
  by (simp add: ks_of_def)

lemma ks_of_Cons [simp]:
  "ks_of ((i', j', k) # ss) i j = (if i' = i \<and> j' = j then k # ks_of ss i j else ks_of ss i j)"
  by (simp add: ks_of_def)

lemma ks_of_append [simp]: "ks_of (xs @ ys) i j = ks_of xs i j @ ks_of ys i j"
  by (simp add: ks_of_def)

lemma ks_of_concat: "ks_of (concat xss) i j = concat (map (\<lambda>xs. ks_of xs i j) xss)"
  by (induction xss) simp_all

lemma dot_Nil [simp]: "dot ar a b i j [] v = v"
  by (simp add: dot_def)

lemma dot_Cons [simp]:
  "dot ar a b i j (k # ks) v = dot ar a b i j ks (dadd ar v (dmul ar (cell a i k) (cell b k j)))"
  by (simp add: dot_def)

lemma dot_append: "dot ar a b i j (ks @ ks') v = dot ar a b i j ks' (dot ar a b i j ks v)"
  by (simp add: dot_def)

lemma square_nth: "square N m \<Longrightarrow> 0 \<le> i \<Longrightarrow> i < N \<Longrightarrow> length (m ! nat i) = nat N"
  by (simp add: square_def list_all_length)

lemma load_square:
  "square N m \<Longrightarrow> 0 \<le> i \<Longrightarrow> i < N \<Longrightarrow> 0 \<le> j \<Longrightarrow> j < N \<Longrightarrow> load m i j = Some (cell m i j)"
  by (simp add: load_def cell_def square_def list_all_length)

lemma store_square:
  "square N m \<Longrightarrow> 0 \<le> i \<Longrightarrow> i < N \<Longrightarrow> 0 \<le> j \<Longrightarrow> j < N \<Longrightarrow> store m i j v = Some (upd m i j v)"
  by (simp add: store_def upd_def square_def list_all_length)

lemma square_upd: "square N m \<Longrightarrow> square N (upd m i j v)"
  by (cases "nat i < length m") (auto simp add: square_def upd_def list_all_length nth_list_update)

lemma cell_upd:
  "square N m \<Longrightarrow> 0 \<le> i \<Longrightarrow> i < N \<Longrightarrow> 0 \<le> j \<Longrightarrow> j < N \<Longrightarrow> 0 \<le> i' \<Longrightarrow> i' < N \<Longrightarrow> 0 \<le> j' \<Longrightarrow> j' < N \<Longrightarrow>
   cell (upd m i j v) i' j' = (if i' = i \<and> j' = j then v else cell m i' j')"
  by (auto simp add: square_def upd_def cell_def list_all_length nth_list_update)

lemma square_ext:
  assumes "square N m" "square N m'"
    and "\<And>i j. 0 \<le> i \<Longrightarrow> i < N \<Longrightarrow> 0 \<le> j \<Longrightarrow> j < N \<Longrightarrow> cell m i j = cell m' i j"
  shows "m = m'"
proof (rule nth_equalityI)
  show "length m = length m'" using assms(1,2) by (simp add: square_def)
next
  fix r assume r: "r < length m"
  then have rN: "int r < N" "0 \<le> int r" using assms(1) by (auto simp: square_def)
  show "m ! r = m' ! r"
  proof (rule nth_equalityI)
    show "length (m ! r) = length (m' ! r)"
      using square_nth[OF assms(1), of "int r"] square_nth[OF assms(2), of "int r"] rN by simp
  next
    fix s assume s: "s < length (m ! r)"
    then have "int s < N" using square_nth[OF assms(1), of "int r"] rN by simp
    then show "m ! r ! s = m' ! r ! s"
      using assms(3)[of "int r" "int s"] rN by (simp add: cell_def)
  qed
qed

lemma mat_c_put_c [simp]: "mat_c (put_c m x) = x"
  by (simp add: mat_c_def put_c_def)

lemma refs_put_c [simp]:
  "ref_a (put_c m x) = ref_a m" "ref_b (put_c m x) = ref_b m" "ref_c (put_c m x) = ref_c m"
  by (simp_all add: put_c_def)

lemma mat_a_put_c: "ref_c m \<noteq> ref_a m \<Longrightarrow> mat_a (put_c m x) = mat_a m"
  by (simp add: mat_a_def put_c_def)

lemma mat_b_put_c: "ref_c m \<noteq> ref_b m \<Longrightarrow> mat_b (put_c m x) = mat_b m"
  by (simp add: mat_b_def put_c_def)

lemma wf_put_c:
  "wf_mem N m \<Longrightarrow> mat_a (put_c m x) = mat_a m" "wf_mem N m \<Longrightarrow> mat_b (put_c m x) = mat_b m"
  by (simp_all add: wf_mem_def mat_a_put_c mat_b_put_c)

lemma wf_mem_put_c: "wf_mem N m \<Longrightarrow> square N x \<Longrightarrow> wf_mem N (put_c m x)"
  by (simp add: wf_mem_def mat_a_put_c mat_b_put_c)

lemma stmt_read_wf:
  "wf_mem N m \<Longrightarrow> inb N (i, j, k) \<Longrightarrow>
   stmt_read ar m (i, j, k) =
     Some (i, j, dadd ar (cell (mat_c m) i j) (dmul ar (cell (mat_a m) i k) (cell (mat_b m) k j)))"
  by (simp add: stmt_read_def wf_mem_def inb_def load_square[of N])

lemma stmt_write_wf:
  "wf_mem N m \<Longrightarrow> 0 \<le> i \<Longrightarrow> i < N \<Longrightarrow> 0 \<le> j \<Longrightarrow> j < N \<Longrightarrow>
   stmt_write m (i, j, v) = Some (put_c m (upd (mat_c m) i j v))"
  by (simp add: stmt_write_def wf_mem_def store_square[of N])

lemma wf_mem_upd: "wf_mem N m \<Longrightarrow> wf_mem N (put_c m (upd (mat_c m) i j v))"
  by (rule wf_mem_put_c) (simp_all add: wf_mem_def square_upd)

lemma exec_stmt_wf:
  "wf_mem N m \<Longrightarrow> inb N (i, j, k) \<Longrightarrow>
   exec_stmt ar (i, j, k) m =
     Some (put_c m (upd (mat_c m) i j
        (dadd ar (cell (mat_c m) i j) (dmul ar (cell (mat_a m) i k) (cell (mat_b m) k j)))))"
  by (simp add: exec_stmt_def stmt_read_wf stmt_write_wf inb_def)

lemma run_stmts_cells:
  "wf_mem N m \<Longrightarrow> list_all (inb N) ss \<Longrightarrow> \<exists>m'. run_stmts ar ss m = Some m' \<and> cells_rel ar N ss m m'"
proof (induction ss arbitrary: m)
  case Nil
  then show ?case by (simp add: cells_rel_def)
next
  case (Cons s ss)
  obtain i j k where s: "s = (i, j, k)" by (cases s) auto
  let ?v = "dadd ar (cell (mat_c m) i j) (dmul ar (cell (mat_a m) i k) (cell (mat_b m) k j))"
  let ?m1 = "put_c m (upd (mat_c m) i j ?v)"
  from Cons.prems s have ib: "inb N (i, j, k)" and rest: "list_all (inb N) ss" by auto
  have e: "exec_stmt ar s m = Some ?m1" using exec_stmt_wf[OF Cons.prems(1) ib] s by simp
  have wf1: "wf_mem N ?m1" by (rule wf_mem_upd[OF Cons.prems(1)])
  from Cons.IH[OF wf1 rest] obtain m' where r: "run_stmts ar ss ?m1 = Some m'"
    and c: "cells_rel ar N ss ?m1 m'" by blast
  have sq: "square N (mat_c m)" using Cons.prems(1) by (simp add: wf_mem_def)
  have "cells_rel ar N (s # ss) m m'"
    using c ib unfolding cells_rel_def s
    by (auto simp add: cell_upd[OF sq] inb_def wf_put_c[OF Cons.prems(1)])
  with e r show ?case by simp
qed

lemma stmt_cells_Nil [simp]: "stmt_cells [] = {}"
  by (simp add: stmt_cells_def)

lemma stmt_cells_Cons [simp]: "stmt_cells ((i, j, k) # ss) = insert (i, j) (stmt_cells ss)"
  by (simp add: stmt_cells_def)

lemma stmt_cells_concat: "stmt_cells (concat xss) = (\<Union>xs \<in> set xss. stmt_cells xs)"
  by (induction xss) (auto simp add: stmt_cells_def image_Un)

lemma ks_of_no_cell: "(i, j) \<notin> stmt_cells ss \<Longrightarrow> ks_of ss i j = []"
  by (induction ss) (auto simp add: stmt_cells_def)

lemma th_final_id: "(i, j) \<notin> th_cells th \<Longrightarrow> th_final ar a b i j th v = v"
  by (cases th) (auto simp add: th_cells_def th_final_def ks_of_no_cell split: option.splits)

lemma fold_all_id: "(\<And>x v. x \<in> set xs \<Longrightarrow> g x v = v) \<Longrightarrow> fold g xs v = v"
  by (induction xs arbitrary: v) simp_all

lemma fold_one:
  "t < length xs \<Longrightarrow> (\<And>t' v. t' < length xs \<Longrightarrow> t' \<noteq> t \<Longrightarrow> g (xs ! t') v = v) \<Longrightarrow>
   fold g xs v = g (xs ! t) v"
proof (induction xs arbitrary: t v)
  case Nil
  then show ?case by simp
next
  case (Cons x xs)
  show ?case
  proof (cases t)
    case 0
    have "\<And>y w. y \<in> set xs \<Longrightarrow> g y w = w"
    proof -
      fix y w assume "y \<in> set xs"
      then obtain n where n: "n < length xs" "xs ! n = y" by (auto simp: in_set_conv_nth)
      with Cons.prems(2)[of "Suc n" w] 0 show "g y w = w" by simp
    qed
    then have "fold g xs (g x v) = g x v" by (rule fold_all_id)
    with 0 show ?thesis by simp
  next
    case (Suc t')
    have gx: "g x v = v" using Cons.prems(2)[of 0 v] Suc by simp
    have "fold g xs v = g (xs ! t') v"
    proof (rule Cons.IH)
      show "t' < length xs" using Cons.prems(1) Suc by simp
    next
      fix u w assume "u < length xs" "u \<noteq> t'"
      with Cons.prems(2)[of "Suc u" w] Suc show "g (xs ! u) w = w" by simp
    qed
    with gx Suc show ?thesis by simp
  qed
qed

lemma fold_update_same:
  "t < length xs \<Longrightarrow> g y = g (xs ! t) \<Longrightarrow> fold g (xs[t := y]) v = fold g xs v"
proof -
  assume a: "t < length xs" "g y = g (xs ! t)"
  have "map g (xs[t := y]) = map g xs"
    using a by (simp add: map_update list_update_same_conv)
  then have "fold (\<lambda>h. h) (map g (xs[t := y])) v = fold (\<lambda>h. h) (map g xs) v" by simp
  then show ?thesis by (simp add: fold_map comp_def)
qed

lemma thread_finish_cells:
  assumes wf: "wf_mem N m" and ib: "th_inb N th"
  shows "\<exists>m'. thread_finish ar th m = Some m' \<and> frame_rel N m m' \<and>
           (\<forall>i j. 0 \<le> i \<and> i < N \<and> 0 \<le> j \<and> j < N \<longrightarrow>
              cell (mat_c m') i j = th_final ar (mat_a m) (mat_b m) i j th (cell (mat_c m) i j))"
proof -
  obtain pend prog where th: "th = (pend, prog)" by (cases th) auto
  from ib th have pr: "list_all (inb N) prog" by (simp add: th_inb_def)
  show ?thesis
  proof (cases pend)
    case None
    from run_stmts_cells[OF wf pr, of ar] obtain m' where
      r: "run_stmts ar prog m = Some m'" and c: "cells_rel ar N prog m m'" by blast
    show ?thesis
      using r c th None by (auto simp add: thread_finish_def cells_rel_def frame_rel_def th_final_def)
  next
    case (Some p)
    obtain i0 j0 v where p: "p = (i0, j0, v)" by (cases p) auto
    from ib th Some p have rng: "0 \<le> i0" "i0 < N" "0 \<le> j0" "j0 < N" by (auto simp: th_inb_def)
    let ?m1 = "put_c m (upd (mat_c m) i0 j0 v)"
    have w: "stmt_write m p = Some ?m1" using stmt_write_wf[OF wf rng] p by simp
    have wf1: "wf_mem N ?m1" by (rule wf_mem_upd[OF wf])
    from run_stmts_cells[OF wf1 pr, of ar] obtain m' where
      r: "run_stmts ar prog ?m1 = Some m'" and c: "cells_rel ar N prog ?m1 m'" by blast
    have sq: "square N (mat_c m)" using wf by (simp add: wf_mem_def)
    show ?thesis
      using r c w th Some p rng
      by (auto simp add: thread_finish_def cells_rel_def frame_rel_def th_final_def cell_upd[OF sq]
            wf_put_c[OF wf])
  qed
qed

lemma join_threads_cells:
  "wf_mem N m \<Longrightarrow> list_all (th_inb N) ths \<Longrightarrow>
   \<exists>m'. join_threads ar ths m = Some m' \<and> frame_rel N m m' \<and>
     (\<forall>i j. 0 \<le> i \<and> i < N \<and> 0 \<le> j \<and> j < N \<longrightarrow>
        cell (mat_c m') i j = final ar (mat_a m) (mat_b m) i j ths (cell (mat_c m) i j))"
proof (induction ths arbitrary: m)
  case Nil
  then show ?case by (simp add: frame_rel_def final_def)
next
  case (Cons th ths)
  from Cons.prems have ib: "th_inb N th" and rest: "list_all (th_inb N) ths" by auto
  from thread_finish_cells[OF Cons.prems(1) ib, of ar] obtain m1 where
    f: "thread_finish ar th m = Some m1" and fr: "frame_rel N m m1"
    and c1: "\<forall>i j. 0 \<le> i \<and> i < N \<and> 0 \<le> j \<and> j < N \<longrightarrow>
              cell (mat_c m1) i j = th_final ar (mat_a m) (mat_b m) i j th (cell (mat_c m) i j)"
    by blast
  from fr have wf1: "wf_mem N m1" by (simp add: frame_rel_def)
  from Cons.IH[OF wf1 rest] obtain m' where
    j: "join_threads ar ths m1 = Some m'" and fr': "frame_rel N m1 m'"
    and c2: "\<forall>i j. 0 \<le> i \<and> i < N \<and> 0 \<le> j \<and> j < N \<longrightarrow>
        cell (mat_c m') i j = final ar (mat_a m1) (mat_b m1) i j ths (cell (mat_c m1) i j)"
    by blast
  show ?case
    using f j fr fr' c1 c2 by (auto simp add: frame_rel_def final_def)
qed

lemma thread_step_cells:
  assumes wf: "wf_mem N m" and ib: "th_inb N th"
  shows "\<exists>th' m'. thread_step ar th m = Some (th', m') \<and> frame_rel N m m' \<and> th_inb N th' \<and>
           th_cells th' \<subseteq> th_cells th \<and>
           (\<forall>i j. 0 \<le> i \<and> i < N \<and> 0 \<le> j \<and> j < N \<and> (i, j) \<notin> th_cells th \<longrightarrow>
              cell (mat_c m') i j = cell (mat_c m) i j) \<and>
           (\<forall>i j. 0 \<le> i \<and> i < N \<and> 0 \<le> j \<and> j < N \<longrightarrow>
              th_final ar (mat_a m) (mat_b m) i j th' (cell (mat_c m') i j) =
              th_final ar (mat_a m) (mat_b m) i j th (cell (mat_c m) i j))"
proof -
  obtain pend prog where th: "th = (pend, prog)" by (cases th) auto
  have sq: "square N (mat_c m)" using wf by (simp add: wf_mem_def)
  show ?thesis
  proof (cases pend)
    case (Some p)
    obtain i0 j0 v where p: "p = (i0, j0, v)" by (cases p) auto
    from ib th Some p have rng: "0 \<le> i0" "i0 < N" "0 \<le> j0" "j0 < N" by (auto simp: th_inb_def)
    let ?m1 = "put_c m (upd (mat_c m) i0 j0 v)"
    have w: "stmt_write m p = Some ?m1" using stmt_write_wf[OF wf rng] p by simp
    have wf1: "wf_mem N ?m1" by (rule wf_mem_upd[OF wf])
    have st: "thread_step ar th m = Some ((None, prog), ?m1)"
      using w th Some by (simp add: thread_step_def)
    show ?thesis
      using st wf1 ib th Some p rng
      by (auto simp add: frame_rel_def th_inb_def th_cells_def th_final_def cell_upd[OF sq]
            wf_put_c[OF wf])
  next
    case None
    show ?thesis
    proof (cases prog)
      case Nil
      then show ?thesis using th None wf ib
        by (auto simp add: thread_step_def frame_rel_def)
    next
      case (Cons s rest)
      obtain i0 j0 k where s: "s = (i0, j0, k)" by (cases s) auto
      from ib th Cons s have sb: "inb N (i0, j0, k)" and rb: "list_all (inb N) rest"
        by (auto simp: th_inb_def)
      let ?v = "dadd ar (cell (mat_c m) i0 j0) (dmul ar (cell (mat_a m) i0 k) (cell (mat_b m) k j0))"
      have st: "thread_step ar th m = Some ((Some (i0, j0, ?v), rest), m)"
        using stmt_read_wf[OF wf sb, of ar] th None Cons s by (simp add: thread_step_def)
      show ?thesis
        using st wf sb rb th None Cons s
        by (auto simp add: frame_rel_def th_inb_def th_cells_def th_final_def inb_def)
    qed
  qed
qed

lemma final_step:
  assumes t: "t < length ths" and dj: "disjoint_threads ths"
    and sub: "th_cells th' \<subseteq> th_cells (ths ! t)"
    and keep: "(i, j) \<notin> th_cells (ths ! t) \<Longrightarrow> v' = v"
    and fin: "th_final ar a b i j th' v' = th_final ar a b i j (ths ! t) v"
  shows "final ar a b i j (ths[t := th']) v' = final ar a b i j ths v"
proof (cases "(i, j) \<in> th_cells (ths ! t)")
  case True
  have others: "\<And>t' w. t' < length ths \<Longrightarrow> t' \<noteq> t \<Longrightarrow> th_final ar a b i j (ths ! t') w = w"
  proof -
    fix t' w assume "t' < length ths" "t' \<noteq> t"
    with dj t True have "(i, j) \<notin> th_cells (ths ! t')"
      unfolding disjoint_threads_def by blast
    then show "th_final ar a b i j (ths ! t') w = w" by (rule th_final_id)
  qed
  have l: "fold (th_final ar a b i j) ths v = th_final ar a b i j (ths ! t) v"
    by (rule fold_one[OF t]) (rule others)
  have t': "t < length (ths[t := th'])" using t by simp
  have r: "fold (th_final ar a b i j) (ths[t := th']) v' = th_final ar a b i j ((ths[t := th']) ! t) v'"
  proof (rule fold_one[OF t'])
    fix u w assume "u < length (ths[t := th'])" "u \<noteq> t"
    then show "th_final ar a b i j (ths[t := th'] ! u) w = w" using others[of u w] by simp
  qed
  show ?thesis using l r fin t by (simp add: final_def)
next
  case False
  then have v: "v' = v" by (rule keep)
  from False sub have "(i, j) \<notin> th_cells th'" by blast
  then have "th_final ar a b i j th' = th_final ar a b i j (ths ! t)"
    using False by (auto simp add: th_final_id fun_eq_iff)
  then show ?thesis using v fold_update_same[OF t, of "th_final ar a b i j" th' v]
    by (simp add: final_def)
qed

lemma disjoint_threads_update:
  "disjoint_threads ths \<Longrightarrow> t < length ths \<Longrightarrow> th_cells th' \<subseteq> th_cells (ths ! t) \<Longrightarrow>
   disjoint_threads (ths[t := th'])"
  unfolding disjoint_threads_def
  by (auto simp add: nth_list_update)

lemma run_threads_cells:
  "wf_mem N m \<Longrightarrow> list_all (th_inb N) ths \<Longrightarrow> disjoint_threads ths \<Longrightarrow>
   \<exists>m'. run_threads ar sg ths m = Some m' \<and> frame_rel N m m' \<and>
     (\<forall>i j. 0 \<le> i \<and> i < N \<and> 0 \<le> j \<and> j < N \<longrightarrow>
        cell (mat_c m') i j = final ar (mat_a m) (mat_b m) i j ths (cell (mat_c m) i j))"
proof (induction sg arbitrary: ths m)
  case Nil
  then show ?case using join_threads_cells[of N m ths ar] by simp
next
  case (Cons t sg)
  show ?case
  proof (cases "t < length ths")
    case False
    then show ?thesis using Cons.IH[OF Cons.prems] by simp
  next
    case True
    have ib: "th_inb N (ths ! t)" using Cons.prems(2) True by (simp add: list_all_length)
    from thread_step_cells[OF Cons.prems(1) ib, of ar] obtain th' m1 where
      st: "thread_step ar (ths ! t) m = Some (th', m1)" and fr: "frame_rel N m m1"
      and ib': "th_inb N th'" and sub: "th_cells th' \<subseteq> th_cells (ths ! t)"
      and keep: "\<forall>i j. 0 \<le> i \<and> i < N \<and> 0 \<le> j \<and> j < N \<and> (i, j) \<notin> th_cells (ths ! t) \<longrightarrow>
              cell (mat_c m1) i j = cell (mat_c m) i j"
      and fin: "\<forall>i j. 0 \<le> i \<and> i < N \<and> 0 \<le> j \<and> j < N \<longrightarrow>
              th_final ar (mat_a m) (mat_b m) i j th' (cell (mat_c m1) i j) =
              th_final ar (mat_a m) (mat_b m) i j (ths ! t) (cell (mat_c m) i j)"
      by blast
    from fr have wf1: "wf_mem N m1" and ab: "mat_a m1 = mat_a m" "mat_b m1 = mat_b m"
      by (simp_all add: frame_rel_def)
    have ibs: "list_all (th_inb N) (ths[t := th'])"
      using Cons.prems(2) ib' True by (auto simp add: list_all_length nth_list_update)
    have dj: "disjoint_threads (ths[t := th'])"
      by (rule disjoint_threads_update[OF Cons.prems(3) True sub])
    from Cons.IH[OF wf1 ibs dj] obtain m' where
      r: "run_threads ar sg (ths[t := th']) m1 = Some m'" and fr': "frame_rel N m1 m'"
      and c: "\<forall>i j. 0 \<le> i \<and> i < N \<and> 0 \<le> j \<and> j < N \<longrightarrow>
        cell (mat_c m') i j = final ar (mat_a m1) (mat_b m1) i j (ths[t := th']) (cell (mat_c m1) i j)"
      by blast
    have "\<forall>i j. 0 \<le> i \<and> i < N \<and> 0 \<le> j \<and> j < N \<longrightarrow>
        cell (mat_c m') i j = final ar (mat_a m) (mat_b m) i j ths (cell (mat_c m) i j)"
    proof (intro allI impI)
      fix i j assume rng: "0 \<le> i \<and> i < N \<and> 0 \<le> j \<and> j < N"
      have "final ar (mat_a m) (mat_b m) i j (ths[t := th']) (cell (mat_c m1) i j)
            = final ar (mat_a m) (mat_b m) i j ths (cell (mat_c m) i j)"
        by (rule final_step[OF True Cons.prems(3) sub]) (use keep fin rng in auto)
      with c rng ab show "cell (mat_c m') i j = final ar (mat_a m) (mat_b m) i j ths (cell (mat_c m) i j)"
        by simp
    qed
    moreover have "frame_rel N m m'" using fr fr' by (simp add: frame_rel_def)
    ultimately show ?thesis using st r True by simp
  qed
qed

lemma final_initial:
  "final ar a b i j (map (\<lambda>prog. (None, prog)) progs) v = dot ar a b i j (ks_of (concat progs) i j) v"
  by (induction progs arbitrary: v) (simp_all add: final_def th_final_def dot_append)

lemma concat_map_single:
  "distinct xs \<Longrightarrow> (\<And>x. x \<in> set xs \<Longrightarrow> x \<noteq> x0 \<Longrightarrow> h x = []) \<Longrightarrow>
   concat (map h xs) = (if x0 \<in> set xs then h x0 else [])"
  by (induction xs) auto

lemma comprehension_filter: "concat (map (\<lambda>x. if P x then [f x] else []) xs) = map f (filter P xs)"
  by (induction xs) auto

lemma ks_of_thread_programs:
  assumes n: "0 < n" and dj: "disjoint_iters iters"
  shows "ks_of (concat (thread_programs owner n iters)) i j = ks_of (concat iters) i j"
proof -
  let ?L = "length iters"
  define g where "g x = ks_of (iters ! x) i j" for x
  have "\<exists>x0. \<forall>x. x < ?L \<and> x \<noteq> x0 \<longrightarrow> g x = []"
  proof (cases "\<exists>x < ?L. (i, j) \<in> stmt_cells (iters ! x)")
    case True
    then obtain x1 where x1: "x1 < ?L" "(i, j) \<in> stmt_cells (iters ! x1)" by blast
    have "\<forall>x. x < ?L \<and> x \<noteq> x1 \<longrightarrow> g x = []"
    proof (intro allI impI)
      fix x assume "x < ?L \<and> x \<noteq> x1"
      with dj x1 have "(i, j) \<notin> stmt_cells (iters ! x)"
        unfolding disjoint_iters_def by blast
      then show "g x = []" by (simp add: g_def ks_of_no_cell)
    qed
    then show ?thesis by blast
  next
    case False
    then have "\<forall>x. x < ?L \<and> x \<noteq> 0 \<longrightarrow> g x = []" by (simp add: g_def ks_of_no_cell)
    then show ?thesis by blast
  qed
  then obtain x0 where x0: "\<And>x. x < ?L \<Longrightarrow> x \<noteq> x0 \<Longrightarrow> g x = []" by blast
  have rhs: "ks_of (concat iters) i j = (if x0 < ?L then g x0 else [])"
  proof -
    have m: "map (\<lambda>xs. ks_of xs i j) iters = map g [0..<?L]"
      by (rule nth_equalityI) (simp_all add: g_def)
    have "concat (map g [0..<?L]) = (if x0 \<in> set [0..<?L] then g x0 else [])"
      by (rule concat_map_single) (use x0 in auto)
    then show ?thesis by (simp add: ks_of_concat m)
  qed
  have inner: "ks_of (concat [iters ! x. x \<leftarrow> [0..<?L], owner x mod n = t]) i j
               = (if x0 < ?L \<and> owner x0 mod n = t then g x0 else [])" for t
  proof -
    have "concat (map g (filter (\<lambda>x. owner x mod n = t) [0..<?L]))
          = (if x0 \<in> set (filter (\<lambda>x. owner x mod n = t) [0..<?L]) then g x0 else [])"
      by (rule concat_map_single) (use x0 in auto)
    moreover have "g = (\<lambda>x. ks_of (iters ! x) i j)" by (simp add: fun_eq_iff g_def)
    then have "ks_of (concat [iters ! x. x \<leftarrow> [0..<?L], owner x mod n = t]) i j
          = concat (map g (filter (\<lambda>x. owner x mod n = t) [0..<?L]))"
      by (simp add: ks_of_concat comprehension_filter comp_def)
    ultimately show ?thesis by simp
  qed
  have "ks_of (concat (thread_programs owner n iters)) i j
        = concat (map (\<lambda>t. if x0 < ?L \<and> owner x0 mod n = t then g x0 else []) [0..<n])"
    unfolding thread_programs_def
    by (subst ks_of_concat) (simp only: map_map comp_def inner)
  also have "\<dots> = (if owner x0 mod n \<in> set [0..<n]
                   then (if x0 < ?L \<and> owner x0 mod n = owner x0 mod n then g x0 else []) else [])"
    by (rule concat_map_single) auto
  also have "\<dots> = (if x0 < ?L then g x0 else [])" using n by simp
  finally show ?thesis using rhs by simp
qed

lemma stmt_cells_program:
  "stmt_cells (concat [iters ! x. x \<leftarrow> [0..<length iters], owner x mod n = t])
   = (\<Union>x \<in> {x. x < length iters \<and> owner x mod n = t}. stmt_cells (iters ! x))"
  by (auto simp add: stmt_cells_concat comprehension_filter)

lemma disjoint_programs:
  assumes dj: "disjoint_iters iters" and t: "t < n" "t' < n" "t \<noteq> t'"
  shows "stmt_cells (thread_programs owner n iters ! t) \<inter> stmt_cells (thread_programs owner n iters ! t') = {}"
proof -
  have "stmt_cells (iters ! x) \<inter> stmt_cells (iters ! y) = {}"
    if "x < length iters" "owner x mod n = t" "y < length iters" "owner y mod n = t'" for x y
  proof -
    from that t have "x \<noteq> y" by auto
    with dj that show ?thesis unfolding disjoint_iters_def by blast
  qed
  then show ?thesis
    using t by (simp add: thread_programs_def stmt_cells_program) blast
qed

lemma disjoint_threads_programs:
  assumes dj: "disjoint_iters iters"
  shows "disjoint_threads (map (\<lambda>prog. (None, prog)) (thread_programs owner n iters))"
proof -
  have len: "length (thread_programs owner n iters) = n" by (simp add: thread_programs_def)
  show ?thesis
    unfolding disjoint_threads_def
    using disjoint_programs[OF dj] len by (auto simp add: th_cells_def)
qed

lemma th_inb_programs:
  assumes "\<forall>it \<in> set iters. list_all (inb N) it"
  shows "list_all (th_inb N) (map (\<lambda>prog. (None, prog)) (thread_programs owner n iters))"
  using assms
  by (auto simp add: thread_programs_def list_all_iff th_inb_def comprehension_filter)

lemma omp_parallel_for_cells:
  assumes wf: "wf_mem N m" and nt: "0 < nThreads"
    and ib: "\<forall>it \<in> set iters. list_all (inb N) it" and dj: "disjoint_iters iters"
  shows "\<exists>m'. omp_parallel_for ar sch nThreads iters m = Some m' \<and> cells_rel ar N (concat iters) m m'"
proof -
  let ?ths = "map (\<lambda>prog. (None, prog)) (thread_programs (fst sch) (nat nThreads) iters)"
  from run_threads_cells[OF wf th_inb_programs[OF ib] disjoint_threads_programs[OF dj], of ar "snd sch" "fst sch" "nat nThreads"]
  obtain m' where r: "run_threads ar (snd sch) ?ths m = Some m'" and fr: "frame_rel N m m'"
    and c: "\<forall>i j. 0 \<le> i \<and> i < N \<and> 0 \<le> j \<and> j < N \<longrightarrow>
        cell (mat_c m') i j = final ar (mat_a m) (mat_b m) i j ?ths (cell (mat_c m) i j)"
    by blast
  have n: "0 < nat nThreads" using nt by simp
  have "cells_rel ar N (concat iters) m m'"
    using fr c by (simp add: cells_rel_def frame_rel_def final_initial ks_of_thread_programs[OF n dj])
  then show ?thesis using r nt by (simp add: omp_parallel_for_def)
qed

lemma cells_rel_trans:
  "cells_rel ar N s1 m m1 \<Longrightarrow> cells_rel ar N s2 m1 m2 \<Longrightarrow> cells_rel ar N (s1 @ s2) m m2"
  by (simp add: cells_rel_def dot_append)

lemma cells_rel_refl: "wf_mem N m \<Longrightarrow> cells_rel ar N [] m m"
  by (simp add: cells_rel_def)

lemma set_loop3: "set (loop3 is js ks) = {(i, j, k). i \<in> set is \<and> j \<in> set js \<and> k \<in> set ks}"
  by (auto simp add: loop3_def)

lemma stmt_cells_loop3: "stmt_cells (loop3 is js ks) \<subseteq> set is \<times> set js"
  by (auto simp add: stmt_cells_def set_loop3)

lemma ks_of_row: "ks_of (map (\<lambda>k. (i', j', k)) ks) i j = (if i' = i \<and> j' = j then ks else [])"
  by (induction ks) auto

lemma ks_of_loop3:
  assumes "distinct is" "distinct js"
  shows "ks_of (loop3 is js ks) i j = (if i \<in> set is \<and> j \<in> set js then ks else [])"
proof -
  have row: "concat (map (\<lambda>k. [(i', j', k)]) ks) = map (\<lambda>k. (i', j', k)) ks" for i' j'
    by (induction ks) auto
  have cols: "concat (map (\<lambda>j'. ks_of (map (\<lambda>k. (i', j', k)) ks) i j) js)
              = (if i' = i \<and> j \<in> set js then ks else [])" for i'
  proof -
    have "concat (map (\<lambda>j'. ks_of (map (\<lambda>k. (i', j', k)) ks) i j) js)
          = (if j \<in> set js then ks_of (map (\<lambda>k. (i', j, k)) ks) i j else [])"
      by (rule concat_map_single) (use assms(2) in \<open>auto simp add: ks_of_row\<close>)
    then show ?thesis by (simp add: ks_of_row)
  qed
  have "ks_of (loop3 is js ks) i j
        = concat (map (\<lambda>i'. if i' = i \<and> j \<in> set js then ks else []) is)"
    by (simp add: loop3_def ks_of_concat comp_def row cols)
  also have "\<dots> = (if i \<in> set is then (if i = i \<and> j \<in> set js then ks else []) else [])"
    by (rule concat_map_single) (use assms(1) in auto)
  finally show ?thesis by simp
qed

lemma sequential_loops_loop3: "sequential_loops N = loop3 [0..N - 1] [0..N - 1] [0..N - 1]"
  by (simp add: sequential_loops_def loop3_def)

lemma standard_iteration_loop3: "standard_iteration N i = loop3 [i] [0..N - 1] [0..N - 1]"
  by (simp add: standard_iteration_def loop3_def)

lemma blocked_iteration_loop3:
  "blocked_iteration NB NEIB p q
   = concat (map (\<lambda>r. loop3 (block_range NEIB p) (block_range NEIB q) (block_range NEIB r)) [0..NB - 1])"
  by (simp add: blocked_iteration_def loop3_def)

lemma standard_concat: "concat (map (standard_iteration N) [0..N - 1]) = sequential_loops N"
  by (simp add: standard_iteration_def[abs_def] sequential_loops_def)

lemma ks_of_sequential:
  "0 \<le> i \<Longrightarrow> i < N \<Longrightarrow> 0 \<le> j \<Longrightarrow> j < N \<Longrightarrow> ks_of (sequential_loops N) i j = [0..N - 1]"
  by (simp add: sequential_loops_loop3 ks_of_loop3)

lemma inb_sequential: "list_all (inb N) (sequential_loops N)"
  by (auto simp add: list_all_iff sequential_loops_loop3 set_loop3 inb_def)

lemma inb_standard: "\<forall>it \<in> set (map (standard_iteration N) [0..N - 1]). list_all (inb N) it"
  by (auto simp add: list_all_iff standard_iteration_loop3 set_loop3 inb_def)

lemma disjoint_standard: "disjoint_iters (map (standard_iteration N) [0..N - 1])"
proof -
  have "stmt_cells (standard_iteration N x) \<inter> stmt_cells (standard_iteration N y) = {}" if "x \<noteq> y" for x y
    using that stmt_cells_loop3[of "[x]" "[0..N - 1]" "[0..N - 1]"]
      stmt_cells_loop3[of "[y]" "[0..N - 1]" "[0..N - 1]"]
    by (auto simp add: standard_iteration_loop3)
  then show ?thesis
    unfolding disjoint_iters_def
    by (auto simp add: nth_eq_iff_index_eq distinct_upto simp del: nth_upto)
qed

lemma in_block_range:
  assumes "0 < NEIB"
  shows "x \<in> set (block_range NEIB p) \<longleftrightarrow> p = x div NEIB"
proof
  assume "x \<in> set (block_range NEIB p)"
  then have b: "p * NEIB \<le> x" "x < p * NEIB + NEIB" by (auto simp add: block_range_def)
  have "x = NEIB * p + (x - p * NEIB)" by (simp add: algebra_simps)
  then have "x div NEIB = p"
    using b assms by (intro int_div_pos_eq[of x NEIB p "x - p * NEIB"]) auto
  then show "p = x div NEIB" by simp
next
  assume p: "p = x div NEIB"
  have e: "x div NEIB * NEIB = x - x mod NEIB" by (simp add: minus_mod_eq_div_mult)
  have "0 \<le> x mod NEIB" "x mod NEIB < NEIB" using assms by simp_all
  with e have "x div NEIB * NEIB \<le> x" "x < x div NEIB * NEIB + NEIB" by linarith+
  then show "x \<in> set (block_range NEIB p)" using p by (simp add: block_range_def)
qed

lemma div_block_bounds:
  fixes x NB NEIB :: int
  assumes "0 < NEIB"
  shows "(0 \<le> x \<and> x < NB * NEIB) \<longleftrightarrow> (0 \<le> x div NEIB \<and> x div NEIB < NB)"
proof -
  have a: "0 \<le> x \<longleftrightarrow> 0 \<le> x div NEIB" using assms pos_imp_zdiv_nonneg_iff[of NEIB x] by simp
  have e: "x div NEIB * NEIB = x - x mod NEIB" by (simp add: minus_mod_eq_div_mult)
  have m: "0 \<le> x mod NEIB" "x mod NEIB < NEIB" using assms by simp_all
  have b: "x < NB * NEIB \<longleftrightarrow> x div NEIB < NB"
  proof
    assume l: "x < NB * NEIB"
    show "x div NEIB < NB"
    proof (rule ccontr)
      assume "\<not> x div NEIB < NB"
      then have "NB * NEIB \<le> x div NEIB * NEIB" using assms by (simp add: mult_right_mono)
      with e m l show False by linarith
    qed
  next
    assume "x div NEIB < NB"
    then have "(x div NEIB + 1) * NEIB \<le> NB * NEIB" using assms by (intro mult_right_mono) auto
    moreover have "(x div NEIB + 1) * NEIB = x div NEIB * NEIB + NEIB" by (simp add: algebra_simps)
    ultimately show "x < NB * NEIB" using e m by linarith
  qed
  show ?thesis using a b by simp
qed

lemma concat_block_ranges:
  assumes "0 < NEIB"
  shows "concat (map (block_range NEIB) [0..int n - 1]) = [0..int n * NEIB - 1]"
proof (induction n)
  case 0
  then show ?case by simp
next
  case (Suc n)
  have s1: "[0..int n] = [0..int n - 1] @ [int n]"
    using upto_rec2[of 0 "int n"] by simp
  have le: "0 \<le> int n * NEIB" using assms by simp
  have s2: "[0..(1 + int n) * NEIB - 1] = [0..int n * NEIB - 1] @ [int n * NEIB..int n * NEIB + NEIB - 1]"
    using upto_split1[of 0 "int n * NEIB" "int n * NEIB + NEIB - 1"] le assms
    by (simp add: algebra_simps)
  show ?case using Suc.IH by (simp add: s1 s2 block_range_def)
qed

lemma ks_of_blocked_iteration:
  "ks_of (blocked_iteration NB NEIB p q) i j
   = (if i \<in> set (block_range NEIB p) \<and> j \<in> set (block_range NEIB q)
      then concat (map (block_range NEIB) [0..NB - 1]) else [])"
proof -
  have d: "distinct (block_range NEIB x)" for x by (simp add: block_range_def)
  show ?thesis
    by (cases "i \<in> set (block_range NEIB p)"; cases "j \<in> set (block_range NEIB q)")
       (simp_all add: blocked_iteration_loop3 ks_of_concat comp_def ks_of_loop3 d)
qed

lemma stmt_cells_blocked_iteration:
  "stmt_cells (blocked_iteration NB NEIB p q) \<subseteq> set (block_range NEIB p) \<times> set (block_range NEIB q)"
  using stmt_cells_loop3[of "block_range NEIB p" "block_range NEIB q"]
  by (auto simp add: blocked_iteration_loop3 stmt_cells_concat)

lemma disjoint_blocked:
  assumes "0 < NEIB"
  shows "disjoint_iters (map (blocked_iteration NB NEIB p) [0..NB - 1])"
proof -
  have c: "q = b div NEIB" if "(a, b) \<in> stmt_cells (blocked_iteration NB NEIB p q)" for a b q
    using that stmt_cells_blocked_iteration[of NB NEIB p q] in_block_range[OF assms, of b q] by auto
  have "stmt_cells (blocked_iteration NB NEIB p x) \<inter> stmt_cells (blocked_iteration NB NEIB p y) = {}"
    if "x \<noteq> y" for x y
    using that c[of _ _ x] c[of _ _ y] by fastforce
  then show ?thesis
    unfolding disjoint_iters_def
    by (auto simp add: nth_eq_iff_index_eq distinct_upto simp del: nth_upto)
qed

lemma inb_blocked:
  assumes "0 < NEIB" "0 \<le> p" "p < NB"
  shows "\<forall>it \<in> set (map (blocked_iteration NB NEIB p) [0..NB - 1]). list_all (inb (NB * NEIB)) it"
proof -
  have "0 \<le> x \<and> x < NB * NEIB" if "x \<in> set (block_range NEIB r)" "0 \<le> r" "r < NB" for x r
    using that in_block_range[OF assms(1), of x r] div_block_bounds[OF assms(1), of x NB] by simp
  then show ?thesis
    using assms
    by (auto simp add: list_all_iff blocked_iteration_loop3 set_loop3 inb_def)
qed

lemma ks_of_region:
  assumes "0 < NEIB" "0 \<le> j" "j < NB * NEIB"
  shows "ks_of (concat (map (blocked_iteration NB NEIB p) [0..NB - 1])) i j
         = (if p = i div NEIB then concat (map (block_range NEIB) [0..NB - 1]) else [])"
proof -
  have q: "j div NEIB \<in> set [0..NB - 1]"
    using div_block_bounds[OF assms(1), of j NB] assms by simp
  have "concat (map (\<lambda>q. ks_of (blocked_iteration NB NEIB p q) i j) [0..NB - 1])
        = (if j div NEIB \<in> set [0..NB - 1] then ks_of (blocked_iteration NB NEIB p (j div NEIB)) i j else [])"
    by (rule concat_map_single)
       (auto simp add: ks_of_blocked_iteration in_block_range[OF assms(1)])
  also have "\<dots> = (if p = i div NEIB then concat (map (block_range NEIB) [0..NB - 1]) else [])"
    using q by (simp add: ks_of_blocked_iteration in_block_range[OF assms(1)])
  finally show ?thesis by (simp add: ks_of_concat comp_def)
qed

lemma ks_of_blocked_all:
  assumes "0 < NEIB" "0 \<le> NB" "0 \<le> i" "i < NB * NEIB" "0 \<le> j" "j < NB * NEIB"
  shows "ks_of (concat (map (\<lambda>p. concat (map (blocked_iteration NB NEIB p) [0..NB - 1])) [0..NB - 1])) i j
         = [0..NB * NEIB - 1]"
proof -
  have p: "i div NEIB \<in> set [0..NB - 1]"
    using div_block_bounds[OF assms(1), of i NB] assms by simp
  have cb: "concat (map (block_range NEIB) [0..NB - 1]) = [0..NB * NEIB - 1]"
    using concat_block_ranges[OF assms(1), of "nat NB"] assms(2) by simp
  have "ks_of (concat (map (\<lambda>p. concat (map (blocked_iteration NB NEIB p) [0..NB - 1])) [0..NB - 1])) i j
        = concat (map (\<lambda>p. ks_of (concat (map (blocked_iteration NB NEIB p) [0..NB - 1])) i j) [0..NB - 1])"
    by (subst ks_of_concat) (simp only: map_map comp_def)
  also have "\<dots> = concat (map (\<lambda>p. if p = i div NEIB then [0..NB * NEIB - 1] else []) [0..NB - 1])"
    by (simp only: ks_of_region[OF assms(1,5,6)] cb)
  also have "\<dots> = (if i div NEIB \<in> set [0..NB - 1]
                   then (if i div NEIB = i div NEIB then [0..NB * NEIB - 1] else []) else [])"
    by (rule concat_map_single) auto
  finally show ?thesis using p by simp
qed

lemma blocked_regions_cells:
  assumes NEIB: "0 < NEIB" and nt: "0 < nThreads"
  shows "wf_mem (NB * NEIB) m \<Longrightarrow> set ps \<subseteq> {0..NB - 1} \<Longrightarrow>
         \<exists>m'. blocked_regions ar sch nThreads NB NEIB ps reg m = Some (m', reg + length ps) \<and>
           cells_rel ar (NB * NEIB)
             (concat (map (\<lambda>p. concat (map (blocked_iteration NB NEIB p) [0..NB - 1])) ps)) m m'"
proof (induction ps arbitrary: reg m)
  case Nil
  then show ?case by (simp add: cells_rel_refl)
next
  case (Cons p ps)
  from Cons.prems have p: "0 \<le> p" "p < NB" and rest: "set ps \<subseteq> {0..NB - 1}" by auto
  from omp_parallel_for_cells[OF Cons.prems(1) nt inb_blocked[OF NEIB p] disjoint_blocked[OF NEIB], of ar "sch reg"]
  obtain m1 where o: "omp_parallel_for ar (sch reg) nThreads (map (blocked_iteration NB NEIB p) [0..NB - 1]) m = Some m1"
    and c1: "cells_rel ar (NB * NEIB) (concat (map (blocked_iteration NB NEIB p) [0..NB - 1])) m m1"
    by blast
  from c1 have wf1: "wf_mem (NB * NEIB) m1" by (simp add: cells_rel_def)
  from Cons.IH[OF wf1 rest, of "Suc reg"] obtain m' where
    b: "blocked_regions ar sch nThreads NB NEIB ps (Suc reg) m1 = Some (m', Suc reg + length ps)"
    and c2: "cells_rel ar (NB * NEIB)
             (concat (map (\<lambda>p. concat (map (blocked_iteration NB NEIB p) [0..NB - 1])) ps)) m1 m'"
    by blast
  from cells_rel_trans[OF c1 c2] o b show ?case by simp
qed

lemma nth_upto0: "0 \<le> i \<Longrightarrow> i < N \<Longrightarrow> [0..N - 1] ! nat i = i"
  by (simp add: nth_upto)

lemma square_mac_product: "square N (mac_product ar N a b c0)"
  by (simp add: square_def mac_product_def list_all_iff)

lemma cell_mac_product:
  "0 \<le> i \<Longrightarrow> i < N \<Longrightarrow> 0 \<le> j \<Longrightarrow> j < N \<Longrightarrow>
   cell (mac_product ar N a b c0) i j = dot ar a b i j [0..N - 1] (cell c0 i j)"
  by (simp add: mac_product_def cell_def[of "map _ _"] nth_upto0 dot_def)

lemma cells_rel_product:
  assumes "cells_rel ar N ss m m'"
    and "\<And>i j. 0 \<le> i \<Longrightarrow> i < N \<Longrightarrow> 0 \<le> j \<Longrightarrow> j < N \<Longrightarrow> ks_of ss i j = [0..N - 1]"
  shows "mat_c m' = mac_product ar N (mat_a m) (mat_b m) (mat_c m)"
proof (rule square_ext[of N])
  show "square N (mat_c m')" using assms(1) by (simp add: cells_rel_def wf_mem_def)
  show "square N (mac_product ar N (mat_a m) (mat_b m) (mat_c m))" by (rule square_mac_product)
  fix i j assume r: "0 \<le> i" "i < N" "0 \<le> j" "j < N"
  then show "cell (mat_c m') i j = cell (mac_product ar N (mat_a m) (mat_b m) (mat_c m)) i j"
    using assms by (simp add: cells_rel_def cell_mac_product)
qed

lemma cell_zero_matrix:
  "0 \<le> i \<Longrightarrow> i < N \<Longrightarrow> 0 \<le> j \<Longrightarrow> j < N \<Longrightarrow> cell (zero_matrix ar N) i j = dzero ar"
  by (simp add: zero_matrix_def cell_def)

lemma mac_product_zero: "mac_product ar N a b (zero_matrix ar N) = dense_product ar N a b"
  by (simp add: mac_product_def dense_product_def cell_zero_matrix)

lemma foldl_add_sum_list:
  fixes f :: "int \<Rightarrow> real"
  shows "foldl (\<lambda>acc k. acc + f k) v ks = v + sum_list (map f ks)"
  by (induction ks arbitrary: v) simp_all

lemma cell_dense_product_real:
  assumes "0 \<le> i" "i < N" "0 \<le> j" "j < N"
  shows "cell (dense_product real_arith N a b) i j = (\<Sum>k = 0..N - 1. cell a i k * cell b k j)"
proof -
  have "sum_list (map (\<lambda>k. cell a i k * cell b k j) [0..N - 1]) = (\<Sum>k = 0..N - 1. cell a i k * cell b k j)"
    using sum_list_distinct_conv_sum_set[of "[0..N - 1]" "\<lambda>k. cell a i k * cell b k j"] by simp
  then show ?thesis
    using assms
    by (simp add: dense_product_def cell_def[of "map _ _"] nth_upto0 real_arith_def foldl_add_sum_list)
qed

lemma sequential_ok:
  assumes wf: "wf_mem N m"
  shows "\<exists>m'. sequentialMatrixMultiplication ar e N (m, w) =
           Some (\<lparr>timestamp = dsub ar (wtime e (Suc (ticks w))) (wtime e (ticks w)), threads = 1\<rparr>, m',
                 w\<lparr>calls := calls w @ [Sequential N], ticks := Suc (Suc (ticks w))\<rparr>)
         \<and> wf_mem N m' \<and> mat_a m' = mat_a m \<and> mat_b m' = mat_b m
         \<and> mat_c m' = mac_product ar N (mat_a m) (mat_b m) (mat_c m)"
proof -
  from run_stmts_cells[OF wf inb_sequential, of ar] obtain m' where
    r: "run_stmts ar (sequential_loops N) m = Some m'"
    and c: "cells_rel ar N (sequential_loops N) m m'" by blast
  have p: "mat_c m' = mac_product ar N (mat_a m) (mat_b m) (mat_c m)"
    by (rule cells_rel_product[OF c]) (simp add: ks_of_sequential)
  show ?thesis
    using r c p by (simp add: sequentialMatrixMultiplication_def omp_get_wtime_def cells_rel_def)
qed

lemma standard_ok:
  assumes wf: "wf_mem N m" and nt: "0 < nThreads"
  shows "\<exists>m'. standardMatrixMultiplication ar e N nThreads (m, w) =
           Some (\<lparr>timestamp = dsub ar (wtime e (Suc (ticks w))) (wtime e (ticks w)), threads = nThreads\<rparr>, m',
                 w\<lparr>calls := calls w @ [Standard N nThreads], ticks := Suc (Suc (ticks w)),
                   regions := Suc (regions w)\<rparr>)
         \<and> wf_mem N m' \<and> mat_a m' = mat_a m \<and> mat_b m' = mat_b m
         \<and> mat_c m' = mac_product ar N (mat_a m) (mat_b m) (mat_c m)"
proof -
  from omp_parallel_for_cells[OF wf nt inb_standard disjoint_standard, of ar "sched e (regions w)"]
  obtain m' where
    r: "omp_parallel_for ar (sched e (regions w)) nThreads (map (standard_iteration N) [0..N - 1]) m = Some m'"
    and c: "cells_rel ar N (sequential_loops N) m m'" by (auto simp add: standard_concat)
  have p: "mat_c m' = mac_product ar N (mat_a m) (mat_b m) (mat_c m)"
    by (rule cells_rel_product[OF c]) (simp add: ks_of_sequential)
  show ?thesis
    using r c p by (simp add: standardMatrixMultiplication_def omp_get_wtime_def cells_rel_def)
qed

lemma block_count:
  assumes "0 \<le> N" "0 < NEIB" "N smod NEIB = 0"
  shows "c_div N NEIB = Some (N sdiv NEIB)" "0 \<le> N sdiv NEIB" "N sdiv NEIB * NEIB = N"
proof -
  show "c_div N NEIB = Some (N sdiv NEIB)" using assms by (simp add: c_div_def)
  show "0 \<le> N sdiv NEIB" using assms by (simp add: signed_divide_int_def sgn_if pos_imp_zdiv_nonneg_iff)
  show "N sdiv NEIB * NEIB = N" using sdiv_mult_smod_eq[of N NEIB] assms by simp
qed

lemma blocked_ok:
  assumes wf: "wf_mem N m" and N: "0 \<le> N" and NEIB: "0 < NEIB" and dv: "N smod NEIB = 0"
    and nt: "0 < nThreads"
  shows "\<exists>m'. blockedMatrixMultiplication ar e N NEIB nThreads (m, w) =
           Some (\<lparr>timestamp = dsub ar (wtime e (Suc (ticks w))) (wtime e (ticks w)), threads = nThreads\<rparr>, m',
                 w\<lparr>calls := calls w @ [Blocked N NEIB nThreads], ticks := Suc (Suc (ticks w)),
                   regions := regions w + nat (N sdiv NEIB)\<rparr>)
         \<and> wf_mem N m' \<and> mat_a m' = mat_a m \<and> mat_b m' = mat_b m
         \<and> mat_c m' = mac_product ar N (mat_a m) (mat_b m) (mat_c m)"
proof -
  let ?NB = "N sdiv NEIB"
  note bc = block_count[OF N NEIB dv]
  have wf': "wf_mem (?NB * NEIB) m" using wf bc(3) by simp
  from blocked_regions_cells[OF NEIB nt wf', of "[0..?NB - 1]" ar "sched e" "regions w"]
  obtain m' where
    r: "blocked_regions ar (sched e) nThreads ?NB NEIB [0..?NB - 1] (regions w) m
        = Some (m', regions w + length [0..?NB - 1])"
    and c: "cells_rel ar (?NB * NEIB)
             (concat (map (\<lambda>p. concat (map (blocked_iteration ?NB NEIB p) [0..?NB - 1])) [0..?NB - 1])) m m'"
    by auto
  have p: "mat_c m' = mac_product ar (?NB * NEIB) (mat_a m) (mat_b m) (mat_c m)"
    by (rule cells_rel_product[OF c]) (simp add: ks_of_blocked_all[OF NEIB bc(2)])
  have len: "length [0..?NB - 1] = nat ?NB" using bc(2) by simp
  show ?thesis
    using r c p bc len
    by (simp add: blockedMatrixMultiplication_def omp_get_wtime_def cells_rel_def)
qed

lemma same_but_c_refl [simp]: "same_but_c m m"
  by (simp add: same_but_c_def)

lemma same_but_c_trans: "same_but_c m m1 \<Longrightarrow> same_but_c m1 m2 \<Longrightarrow> same_but_c m m2"
  by (simp add: same_but_c_def)

lemma same_but_c_put_c [simp]: "same_but_c m (put_c m x)"
  by (simp add: same_but_c_def put_c_def)

lemma same_but_c_inputs:
  "same_but_c m m' \<Longrightarrow> ref_c m \<noteq> ref_a m \<Longrightarrow> ref_c m \<noteq> ref_b m \<Longrightarrow>
   mat_a m' = mat_a m \<and> mat_b m' = mat_b m"
  by (simp add: same_but_c_def mat_a_def mat_b_def)

lemma stmt_write_frame: "stmt_write m p = Some m' \<Longrightarrow> same_but_c m m'"
  by (auto simp add: stmt_write_def split: prod.splits Option.bind_splits)

lemma exec_stmt_frame: "exec_stmt ar s m = Some m' \<Longrightarrow> same_but_c m m'"
  by (auto simp add: exec_stmt_def split: Option.bind_splits dest: stmt_write_frame)

lemma run_stmts_frame: "run_stmts ar ss m = Some m' \<Longrightarrow> same_but_c m m'"
proof (induction ss arbitrary: m)
  case Nil
  then show ?case by simp
next
  case (Cons s ss)
  then obtain m1 where "exec_stmt ar s m = Some m1" "run_stmts ar ss m1 = Some m'"
    by (auto split: Option.bind_splits)
  then show ?case using Cons.IH[of m1] exec_stmt_frame[of ar s m m1] same_but_c_trans by blast
qed

lemma thread_finish_frame: "thread_finish ar th m = Some m' \<Longrightarrow> same_but_c m m'"
proof -
  assume a: "thread_finish ar th m = Some m'"
  obtain pend prog where th: "th = (pend, prog)" by (cases th) auto
  show ?thesis
  proof (cases pend)
    case None
    with a th show ?thesis by (simp add: thread_finish_def run_stmts_frame)
  next
    case (Some p)
    with a th obtain m1 where "stmt_write m p = Some m1" "run_stmts ar prog m1 = Some m'"
      by (auto simp add: thread_finish_def split: Option.bind_splits)
    then show ?thesis using stmt_write_frame run_stmts_frame same_but_c_trans by blast
  qed
qed

lemma join_threads_frame: "join_threads ar ths m = Some m' \<Longrightarrow> same_but_c m m'"
proof (induction ths arbitrary: m)
  case Nil
  then show ?case by simp
next
  case (Cons th ths)
  then obtain m1 where "thread_finish ar th m = Some m1" "join_threads ar ths m1 = Some m'"
    by (auto split: Option.bind_splits)
  then show ?case using Cons.IH[of m1] thread_finish_frame[of ar th m m1] same_but_c_trans by blast
qed

lemma thread_step_frame: "thread_step ar th m = Some (th', m') \<Longrightarrow> same_but_c m m'"
  by (cases th)
     (auto simp add: thread_step_def split: option.splits list.splits Option.bind_splits
           dest!: stmt_write_frame)

lemma run_threads_frame: "run_threads ar sg ths m = Some m' \<Longrightarrow> same_but_c m m'"
proof (induction sg arbitrary: ths m)
  case Nil
  then show ?case using join_threads_frame by simp
next
  case (Cons t sg)
  show ?case
  proof (cases "t < length ths")
    case False
    with Cons show ?thesis by simp
  next
    case True
    with Cons.prems obtain th' m1 where
      s: "thread_step ar (ths ! t) m = Some (th', m1)"
      and r: "run_threads ar sg (ths[t := th']) m1 = Some m'"
      by (auto split: Option.bind_splits)
    show ?thesis using Cons.IH[OF r] thread_step_frame[OF s] same_but_c_trans by blast
  qed
qed

lemma omp_parallel_for_frame:
  "omp_parallel_for ar sch nThreads iters m = Some m' \<Longrightarrow> same_but_c m m'"
  by (auto simp add: omp_parallel_for_def split: if_splits dest: run_threads_frame)

lemma blocked_regions_frame:
  "blocked_regions ar sch nThreads NB NEIB ps reg m = Some (m', reg') \<Longrightarrow> same_but_c m m'"
proof (induction ps arbitrary: reg m)
  case Nil
  then show ?case by simp
next
  case (Cons p ps)
  then obtain m1 where
    o: "omp_parallel_for ar (sch reg) nThreads (map (blocked_iteration NB NEIB p) [0..NB - 1]) m = Some m1"
    and r: "blocked_regions ar sch nThreads NB NEIB ps (Suc reg) m1 = Some (m', reg')"
    by (auto split: Option.bind_splits)
  show ?case using Cons.IH[OF r] omp_parallel_for_frame[OF o] same_but_c_trans by blast
qed

lemma sequential_frame: "others_kept m (sequentialMatrixMultiplication ar e N (m, w))"
  by (auto simp add: others_kept_def sequentialMatrixMultiplication_def omp_get_wtime_def
        split: option.splits Option.bind_splits dest: run_stmts_frame)

lemma standard_frame: "others_kept m (standardMatrixMultiplication ar e N nThreads (m, w))"
  by (auto simp add: others_kept_def standardMatrixMultiplication_def omp_get_wtime_def
        split: option.splits Option.bind_splits dest: omp_parallel_for_frame)

lemma blocked_frame: "others_kept m (blockedMatrixMultiplication ar e N NEIB nThreads (m, w))"
  by (auto simp add: others_kept_def blockedMatrixMultiplication_def omp_get_wtime_def
        split: option.splits Option.bind_splits dest: blocked_regions_frame)

lemma others_kept_inputs:
  "others_kept m res \<Longrightarrow> ref_c m \<noteq> ref_a m \<Longrightarrow> ref_c m \<noteq> ref_b m \<Longrightarrow> inputs_kept m res"
  by (auto simp add: others_kept_def inputs_kept_def split: option.splits dest: same_but_c_inputs)

lemma locals_simps [simp]:
  "mat_a (locals a b c) = a" "mat_b (locals a b c) = b" "mat_c (locals a b c) = c"
  "ref_a (locals a b c) = 0" "ref_b (locals a b c) = 1" "ref_c (locals a b c) = 2"
  by (simp_all add: locals_def mat_a_def mat_b_def mat_c_def)

lemma wf_mem_locals: "square N a \<Longrightarrow> square N b \<Longrightarrow> square N c \<Longrightarrow> wf_mem N (locals a b c)"
  by (simp add: wf_mem_def)

lemma result_c_Some: "res = Some (r, m', w') \<Longrightarrow> result_c res = Some (mat_c m')"
  by (simp add: result_c_def)

lemma writes_outside_block:
  assumes NEIB: "0 < NEIB" and wf: "wf_mem (NB * NEIB) m" and p: "0 \<le> p" "p < NB" and q: "0 \<le> q" "q < NB"
  shows "\<exists>m'. run_stmts ar (blocked_iteration NB NEIB p q) m = Some m' \<and>
           (\<forall>i j. 0 \<le> i \<and> i < NB * NEIB \<and> 0 \<le> j \<and> j < NB * NEIB \<and>
                  \<not> (i \<in> set (block_range NEIB p) \<and> j \<in> set (block_range NEIB q)) \<longrightarrow>
                  cell (mat_c m') i j = cell (mat_c m) i j)"
proof -
  have "blocked_iteration NB NEIB p q \<in> set (map (blocked_iteration NB NEIB p) [0..NB - 1])"
    using q by simp
  with inb_blocked[OF NEIB p] have ib: "list_all (inb (NB * NEIB)) (blocked_iteration NB NEIB p q)"
    by blast
  from run_stmts_cells[OF wf ib, of ar] obtain m' where
    r: "run_stmts ar (blocked_iteration NB NEIB p q) m = Some m'"
    and c: "cells_rel ar (NB * NEIB) (blocked_iteration NB NEIB p q) m m'" by blast
  show ?thesis
    using r c by (auto simp add: cells_rel_def ks_of_blocked_iteration)
qed

lemma set_blocked_iteration:
  "set (blocked_iteration NB NEIB p q)
   = {(i, j, k). i \<in> set (block_range NEIB p) \<and> j \<in> set (block_range NEIB q) \<and>
                 (\<exists>r \<in> {0..NB - 1}. k \<in> set (block_range NEIB r))}"
  by (auto simp add: blocked_iteration_loop3 set_loop3)

lemma set_thread_programs:
  assumes "0 < n"
  shows "(\<Union>t \<in> {..<n}. set (thread_programs owner n iters ! t)) = (\<Union>it \<in> set iters. set it)"
proof
  show "(\<Union>t \<in> {..<n}. set (thread_programs owner n iters ! t)) \<subseteq> (\<Union>it \<in> set iters. set it)"
    using nth_mem[of _ iters] by (fastforce simp add: thread_programs_def comprehension_filter)
  show "(\<Union>it \<in> set iters. set it) \<subseteq> (\<Union>t \<in> {..<n}. set (thread_programs owner n iters ! t))"
  proof
    fix s assume "s \<in> (\<Union>it \<in> set iters. set it)"
    then obtain it where "it \<in> set iters" "s \<in> set it" by blast
    then obtain x where x: "x < length iters" "s \<in> set (iters ! x)"
      by (metis in_set_conv_nth)
    have t: "owner x mod n < n" using assms by simp
    have "s \<in> set (thread_programs owner n iters ! (owner x mod n))"
      using x t by (auto simp add: thread_programs_def comprehension_filter)
    with t show "s \<in> (\<Union>t \<in> {..<n}. set (thread_programs owner n iters ! t))" by blast
  qed
qed

lemma stmt_cells_blocks_disjoint:
  assumes "0 < NEIB" "p \<noteq> p' \<or> q \<noteq> q'"
  shows "stmt_cells (blocked_iteration NB NEIB p q) \<inter> stmt_cells (blocked_iteration NB NEIB p' q') = {}"
proof -
  have c: "p0 = a div NEIB \<and> q0 = b div NEIB"
    if "(a, b) \<in> stmt_cells (blocked_iteration NB NEIB p0 q0)" for a b p0 q0
    using that stmt_cells_blocked_iteration[of NB NEIB p0 q0]
      in_block_range[OF assms(1), of b q0] in_block_range[OF assms(1), of a p0] by auto
  show ?thesis using assms(2) c[of _ _ p q] c[of _ _ p' q'] by fastforce
qed

lemma square_zero_matrix: "square N (zero_matrix ar N)"
  by (simp add: square_def zero_matrix_def list_all_iff)

lemma new_matrix_ok: "0 \<le> N \<Longrightarrow> new_matrix N (dzero ar) = Some (zero_matrix ar N)"
  by (simp add: new_matrix_def zero_matrix_def)

lemma init_cells_ok:
  "square N mx \<Longrightarrow> \<forall>(i, j) \<in> set cs. 0 \<le> i \<and> i < N \<and> 0 \<le> j \<and> j < N \<Longrightarrow>
   \<exists>mx'. init_cells ar e True cs mx w = Some (mx', w\<lparr>draws := draws w + length cs\<rparr>) \<and> square N mx'"
proof (induction cs arbitrary: mx w)
  case Nil
  then show ?case by simp
next
  case (Cons c cs)
  obtain i j where c: "c = (i, j)" by (cases c) auto
  from Cons.prems c have r: "0 \<le> i" "i < N" "0 \<le> j" "j < N"
    and rest: "\<forall>(i, j) \<in> set cs. 0 \<le> i \<and> i < N \<and> 0 \<le> j \<and> j < N" by auto
  have s: "store mx i j (rand e (draws w)) = Some (upd mx i j (rand e (draws w)))"
    by (rule store_square[OF Cons.prems(1) r])
  from Cons.IH[OF square_upd[OF Cons.prems(1)] rest, of i j "rand e (draws w)" "w\<lparr>draws := Suc (draws w)\<rparr>"]
  show ?case using s c by simp
qed

lemma initializeMatrix_ok:
  assumes "square N mx"
  shows "\<exists>mx' d. initializeMatrix ar e mx N True w = Some (mx', w\<lparr>draws := draws w + d\<rparr>) \<and> square N mx'"
proof -
  have "\<forall>(i, j) \<in> set [(i, j). i \<leftarrow> [0..N - 1], j \<leftarrow> [0..N - 1]]. 0 \<le> i \<and> i < N \<and> 0 \<le> j \<and> j < N"
    by auto
  from init_cells_ok[OF assms this, of ar e w] show ?thesis
    unfolding initializeMatrix_def by blast
qed

lemma reset_cells_ok:
  "square N c \<Longrightarrow> \<forall>(i, j) \<in> set cs. 0 \<le> i \<and> i < N \<and> 0 \<le> j \<and> j < N \<Longrightarrow>
   \<exists>c'. reset_cells ar cs c = Some c' \<and> square N c' \<and>
     (\<forall>i j. 0 \<le> i \<and> i < N \<and> 0 \<le> j \<and> j < N \<longrightarrow>
        cell c' i j = (if (i, j) \<in> set cs then dzero ar else cell c i j))"
proof (induction cs arbitrary: c)
  case Nil
  then show ?case by simp
next
  case (Cons x cs)
  obtain i0 j0 where x: "x = (i0, j0)" by (cases x) auto
  from Cons.prems x have r: "0 \<le> i0" "i0 < N" "0 \<le> j0" "j0 < N"
    and rest: "\<forall>(i, j) \<in> set cs. 0 \<le> i \<and> i < N \<and> 0 \<le> j \<and> j < N" by auto
  have s: "store c i0 j0 (dzero ar) = Some (upd c i0 j0 (dzero ar))"
    by (rule store_square[OF Cons.prems(1) r])
  from Cons.IH[OF square_upd[OF Cons.prems(1)] rest, of i0 j0 "dzero ar"]
  obtain c' where c': "reset_cells ar cs (upd c i0 j0 (dzero ar)) = Some c'" "square N c'"
    "\<forall>i j. 0 \<le> i \<and> i < N \<and> 0 \<le> j \<and> j < N \<longrightarrow>
        cell c' i j = (if (i, j) \<in> set cs then dzero ar else cell (upd c i0 j0 (dzero ar)) i j)"
    by blast
  show ?case
    using s c' x r by (auto simp add: cell_upd[OF Cons.prems(1)])
qed

lemma reset_matrix_ok:
  assumes "square N c"
  shows "reset_matrix ar N c = Some (zero_matrix ar N)"
proof -
  let ?cs = "[(row, col). row \<leftarrow> [0..N - 1], col \<leftarrow> [0..N - 1]]"
  have rng: "\<forall>(i, j) \<in> set ?cs. 0 \<le> i \<and> i < N \<and> 0 \<le> j \<and> j < N" by auto
  from reset_cells_ok[OF assms rng, of ar] obtain c' where
    c': "reset_cells ar ?cs c = Some c'" "square N c'"
    "\<forall>i j. 0 \<le> i \<and> i < N \<and> 0 \<le> j \<and> j < N \<longrightarrow>
        cell c' i j = (if (i, j) \<in> set ?cs then dzero ar else cell c i j)"
    by blast
  have "c' = zero_matrix ar N"
  proof (rule square_ext[OF c'(2) square_zero_matrix])
    fix i j assume r: "0 \<le> i" "i < N" "0 \<le> j" "j < N"
    then have "(i, j) \<in> set ?cs" by (auto intro!: bexI[of _ i])
    with r c'(3) have "cell c' i j = dzero ar" by presburger
    with r show "cell c' i j = cell (zero_matrix ar N) i j"
      by (simp only: cell_zero_matrix)
  qed
  with c'(1) show ?thesis by (simp add: reset_matrix_def)
qed

lemma print_results_eq:
  "print_results ar st rs w
   = (if rs = [] then w else w\<lparr>out := out w @ concat (map (table_row ar st) rs), prec := 2\<rparr>)"
proof (induction rs arbitrary: w)
  case Nil
  then show ?case by simp
next
  case (Cons r rs)
  show ?case
    by (cases "rs = []") (simp_all add: Cons.IH Let_def print_def table_row_def)
qed

lemma sweep_time_nonzero: "\<forall>i \<in> set is. i \<noteq> 0 \<Longrightarrow> sweep_time ar e t is st = st"
  by (induction "is" arbitrary: t st) simp_all

lemma blocked_returns:
  assumes wf: "wf_mem N m" and N: "0 \<le> N" and NEIB: "NEIB \<noteq> 0" and dv: "N smod NEIB = 0"
    and nt: "0 < nThreads"
  shows "\<exists>m' g. blockedMatrixMultiplication ar e N NEIB nThreads (m, w) =
           Some (\<lparr>timestamp = dsub ar (wtime e (Suc (ticks w))) (wtime e (ticks w)), threads = nThreads\<rparr>, m',
                 w\<lparr>calls := calls w @ [Blocked N NEIB nThreads], ticks := Suc (Suc (ticks w)),
                   regions := g\<rparr>)
         \<and> wf_mem N m'"
proof (cases "0 < NEIB")
  case True
  from blocked_ok[OF wf N True dv nt, of ar e w] show ?thesis by blast
next
  case False
  with NEIB have neg: "NEIB < 0" by simp
  have d: "c_div N NEIB = Some (N sdiv NEIB)" using N neg by (simp add: c_div_def)
  have "N sdiv NEIB \<le> 0"
    using N neg by (cases "N = 0") (simp_all add: signed_divide_int_def sgn_if pos_imp_zdiv_nonneg_iff)
  then have e: "[0..N sdiv NEIB - 1] = []" by simp
  have "w\<lparr>calls := calls w @ [Blocked N NEIB nThreads], ticks := Suc (ticks w),
          regions := regions w, ticks := Suc (Suc (ticks w))\<rparr>
        = w\<lparr>calls := calls w @ [Blocked N NEIB nThreads], ticks := Suc (Suc (ticks w)),
            regions := regions w\<rparr>" by simp
  then show ?thesis
    using wf d e
    by (intro exI[of _ m] exI[of _ "regions w"])
       (simp add: blockedMatrixMultiplication_def omp_get_wtime_def)
qed

lemma sweep_returns:
  assumes N: "0 \<le> N" and valid: "method = 1 \<longrightarrow> NEIB \<noteq> 0 \<and> N smod NEIB = 0"
  shows "wf_mem N m \<Longrightarrow> \<forall>i \<in> set is. 0 \<le> i \<Longrightarrow>
         \<exists>m' g. sweep ar e N NEIB method is (m, w, st, rs)
           = Some (m',
                   w\<lparr>calls := calls w @ map (sweep_call N NEIB method) is,
                     ticks := ticks w + 2 * length is, regions := g\<rparr>,
                   sweep_time ar e (ticks w) is st, rs @ sweep_results ar e (ticks w) is)
           \<and> wf_mem N m'"
proof (induction "is" arbitrary: m w st rs)
  case Nil
  have "w\<lparr>calls := calls w, ticks := ticks w, regions := regions w\<rparr> = w" by simp
  then show ?case using Nil by (intro exI[of _ m] exI[of _ "regions w"]) simp
next
  case (Cons i "is")
  from Cons.prems have i: "0 < i + 1" and rest: "\<forall>i \<in> set is. 0 \<le> i" by auto
  have sq: "square N (mat_c m)" using Cons.prems(1) by (simp add: wf_mem_def)
  let ?m0 = "put_c m (zero_matrix ar N)"
  have wf0: "wf_mem N ?m0" using Cons.prems(1) by (simp add: wf_mem_put_c square_zero_matrix)
  let ?r = "\<lparr>timestamp = dsub ar (wtime e (Suc (ticks w))) (wtime e (ticks w)), threads = i + 1\<rparr>"
  have "\<exists>m1 g1. (if method = 1
                then blockedMatrixMultiplication ar e N NEIB (i + 1) (?m0, w)
                else standardMatrixMultiplication ar e N (i + 1) (?m0, w))
          = Some (?r, m1, w\<lparr>calls := calls w @ [sweep_call N NEIB method i],
                           ticks := Suc (Suc (ticks w)), regions := g1\<rparr>)
          \<and> wf_mem N m1"
  proof (cases "method = 1")
    case True
    with valid have v: "NEIB \<noteq> 0" "N smod NEIB = 0" by simp_all
    from blocked_returns[OF wf0 N v i, of ar e w] show ?thesis
      using True by (auto simp add: sweep_call_def)
  next
    case False
    from standard_ok[OF wf0 i, of ar e w] show ?thesis
      using False by (auto simp add: sweep_call_def)
  qed
  then obtain m1 g1 where
    run: "(if method = 1
                then blockedMatrixMultiplication ar e N NEIB (i + 1) (?m0, w)
                else standardMatrixMultiplication ar e N (i + 1) (?m0, w))
          = Some (?r, m1, w\<lparr>calls := calls w @ [sweep_call N NEIB method i],
                           ticks := Suc (Suc (ticks w)), regions := g1\<rparr>)"
    and wf1: "wf_mem N m1" by blast
  let ?w1 = "w\<lparr>calls := calls w @ [sweep_call N NEIB method i], ticks := Suc (Suc (ticks w)), regions := g1\<rparr>"
  from Cons.IH[OF wf1 rest, of ?w1 "if i = 0 then timestamp ?r else st" "rs @ [(i + 1, ?r)]"]
  obtain m' g where
    s: "sweep ar e N NEIB method is (m1, ?w1, if i = 0 then timestamp ?r else st, rs @ [(i + 1, ?r)])
        = Some (m', ?w1\<lparr>calls := calls ?w1 @ map (sweep_call N NEIB method) is,
                       ticks := ticks ?w1 + 2 * length is, regions := g\<rparr>,
                sweep_time ar e (ticks ?w1) is (if i = 0 then timestamp ?r else st),
                (rs @ [(i + 1, ?r)]) @ sweep_results ar e (ticks ?w1) is)"
    and wf': "wf_mem N m'" by blast
  show ?case
    apply (rule exI[of _ m'])
    apply (rule exI[of _ g])
    using s wf' run reset_matrix_ok[OF sq, of ar]
    by (simp del: sweep.simps(2) add: sweep.simps(2)[of ar e N NEIB "method" i "is" "(m, w, st, rs)"])
qed

lemma valid_rem:
  "valid_config N NEIB method \<Longrightarrow> (if method = 1 then c_rem N NEIB else Some 0) = Some 0"
  by (auto simp add: valid_config_def c_rem_def)

lemma upto_0_15: "[0..maxThreads - 1] = 0 # [1..15]"
  by (simp add: maxThreads_def upto_rec1[of 0 15])

lemma sweep_time_first:
  "sweep_time ar e t [0..maxThreads - 1] st = dsub ar (wtime e (Suc t)) (wtime e t)"
  by (simp add: upto_0_15 sweep_time_nonzero)

lemma do_body_reject:
  "c_rem N NEIB = Some r \<Longrightarrow> r \<noteq> 0 \<Longrightarrow>
   do_body ar e batchMode N NEIB 1 n w
   = Some (if batchMode then (print [Str divisibility_error, Endl] w, Return 1)
           else (print [Str (''   '' @ divisibility_error), Endl] w, Next))"
  by (simp add: do_body_def)

lemma do_body_throw:
  "N < 0 \<Longrightarrow> (if method = 1 then c_rem N NEIB else Some 0) = Some 0 \<Longrightarrow>
   do_body ar e batchMode N NEIB method n w = Some (w, Throw)"
  by (simp add: do_body_def new_matrix_def)

lemma do_body_single:
  assumes v: "valid_config N NEIB method" and n: "0 < specificThreads"
  shows "\<exists>d g. do_body ar e True N NEIB method specificThreads w
           = Some (w\<lparr>out := out w @ csv_line method specificThreads
                                      (dsub ar (wtime e (Suc (ticks w))) (wtime e (ticks w))),
                     prec := 8, ticks := Suc (Suc (ticks w)), draws := draws w + d, regions := g,
                     calls := calls w @ [single_call N NEIB method specificThreads]\<rparr>,
                   Return 0)"
proof -
  from v have N: "0 \<le> N" by (simp add: valid_config_def)
  from initializeMatrix_ok[OF square_zero_matrix[of N ar], of ar e w] obtain a d1 where
    a: "initializeMatrix ar e (zero_matrix ar N) N True w = Some (a, w\<lparr>draws := draws w + d1\<rparr>)"
    and sa: "square N a" by blast
  let ?w1 = "w\<lparr>draws := draws w + d1\<rparr>"
  from initializeMatrix_ok[OF square_zero_matrix[of N ar], of ar e ?w1] obtain b d2 where
    b: "initializeMatrix ar e (zero_matrix ar N) N True ?w1 = Some (b, ?w1\<lparr>draws := draws ?w1 + d2\<rparr>)"
    and sb: "square N b" by blast
  let ?w2 = "w\<lparr>draws := draws w + d1 + d2\<rparr>"
  have w2: "?w1\<lparr>draws := draws ?w1 + d2\<rparr> = ?w2" by simp
  let ?m = "locals a b (zero_matrix ar N)"
  have wf: "wf_mem N ?m" using sa sb by (simp add: wf_mem_locals square_zero_matrix)
  let ?r = "\<lparr>timestamp = dsub ar (wtime e (Suc (ticks w))) (wtime e (ticks w)), threads = specificThreads\<rparr>"
  have "\<exists>r m' g. (if method = 3 then sequentialMatrixMultiplication ar e N (?m, ?w2)
                   else if method = 1
                   then blockedMatrixMultiplication ar e N NEIB specificThreads (?m, ?w2)
                   else standardMatrixMultiplication ar e N specificThreads (?m, ?w2))
          = Some (r, m', ?w2\<lparr>calls := calls w @ [single_call N NEIB method specificThreads],
                             ticks := Suc (Suc (ticks w)), regions := g\<rparr>)
          \<and> timestamp r = dsub ar (wtime e (Suc (ticks w))) (wtime e (ticks w))"
  proof (cases "method = 3")
    case True
    from sequential_ok[OF wf, of ar e ?w2] obtain m' where
      "sequentialMatrixMultiplication ar e N (?m, ?w2) =
         Some (\<lparr>timestamp = dsub ar (wtime e (Suc (ticks ?w2))) (wtime e (ticks ?w2)), threads = 1\<rparr>, m',
               ?w2\<lparr>calls := calls ?w2 @ [Sequential N], ticks := Suc (Suc (ticks ?w2))\<rparr>)"
      by blast
    moreover have "?w2\<lparr>calls := calls ?w2 @ [Sequential N], ticks := Suc (Suc (ticks ?w2))\<rparr>
                   = ?w2\<lparr>calls := calls w @ [Sequential N], ticks := Suc (Suc (ticks w)),
                         regions := regions w\<rparr>" by simp
    ultimately show ?thesis using True
      by (intro exI[of _ "\<lparr>timestamp = dsub ar (wtime e (Suc (ticks w))) (wtime e (ticks w)), threads = 1\<rparr>"]
                exI[of _ m'] exI[of _ "regions w"])
         (simp add: single_call_def)
  next
    case False
    show ?thesis
    proof (cases "method = 1")
      case True
      with v have vv: "NEIB \<noteq> 0" "N smod NEIB = 0" by (simp_all add: valid_config_def)
      from blocked_returns[OF wf N vv n, of ar e ?w2] show ?thesis
        using True by (auto simp add: single_call_def)
    next
      case m1: False
      from standard_ok[OF wf n, of ar e ?w2] obtain m' where
        "standardMatrixMultiplication ar e N specificThreads (?m, ?w2) =
           Some (\<lparr>timestamp = dsub ar (wtime e (Suc (ticks ?w2))) (wtime e (ticks ?w2)),
                   threads = specificThreads\<rparr>, m',
                 ?w2\<lparr>calls := calls ?w2 @ [Standard N specificThreads], ticks := Suc (Suc (ticks ?w2)),
                     regions := Suc (regions ?w2)\<rparr>)"
        by blast
      then show ?thesis using False m1
        by (intro exI[of _ ?r] exI[of _ m'] exI[of _ "Suc (regions w)"]) (simp add: single_call_def)
    qed
  qed
  then obtain r m' g where
    run: "(if method = 3 then sequentialMatrixMultiplication ar e N (?m, ?w2)
                   else if method = 1
                   then blockedMatrixMultiplication ar e N NEIB specificThreads (?m, ?w2)
                   else standardMatrixMultiplication ar e N specificThreads (?m, ?w2))
          = Some (r, m', ?w2\<lparr>calls := calls w @ [single_call N NEIB method specificThreads],
                             ticks := Suc (Suc (ticks w)), regions := g\<rparr>)"
    and ts: "timestamp r = dsub ar (wtime e (Suc (ticks w))) (wtime e (ticks w))" by blast
  show ?thesis
    apply (rule exI[of _ "d1 + d2"])
    apply (rule exI[of _ g])
    using valid_rem[OF v] new_matrix_ok[OF N, of ar] a b w2 run ts n
      reset_matrix_ok[OF square_zero_matrix[of N ar], of ar]
    by (simp add: do_body_def print_def csv_line_def)
qed

lemma do_body_sweep:
  assumes v: "valid_config N NEIB method" and n: "specificThreads \<le> 0"
  shows "\<exists>d g. do_body ar e True N NEIB method specificThreads w
           = Some (w\<lparr>out := out w @ table_header
                          @ concat (map (table_row ar (dsub ar (wtime e (Suc (ticks w))) (wtime e (ticks w))))
                                        (sweep_table ar e method (ticks w))),
                     prec := 2, ticks := ticks w + 2 * length (sweep_calls N NEIB method),
                     draws := draws w + d, regions := g,
                     calls := calls w @ sweep_calls N NEIB method\<rparr>,
                   Next)"
proof -
  from v have N: "0 \<le> N" and vv: "method = 1 \<longrightarrow> NEIB \<noteq> 0 \<and> N smod NEIB = 0"
    by (simp_all add: valid_config_def)
  from initializeMatrix_ok[OF square_zero_matrix[of N ar], of ar e w] obtain a d1 where
    a: "initializeMatrix ar e (zero_matrix ar N) N True w = Some (a, w\<lparr>draws := draws w + d1\<rparr>)"
    and sa: "square N a" by blast
  let ?w1 = "w\<lparr>draws := draws w + d1\<rparr>"
  from initializeMatrix_ok[OF square_zero_matrix[of N ar], of ar e ?w1] obtain b d2 where
    b: "initializeMatrix ar e (zero_matrix ar N) N True ?w1 = Some (b, ?w1\<lparr>draws := draws ?w1 + d2\<rparr>)"
    and sb: "square N b" by blast
  let ?w2 = "w\<lparr>draws := draws w + d1 + d2\<rparr>"
  have w2: "?w1\<lparr>draws := draws ?w1 + d2\<rparr> = ?w2" by simp
  let ?m = "locals a b (zero_matrix ar N)"
  have wf: "wf_mem N ?m" using sa sb by (simp add: wf_mem_locals square_zero_matrix)
  let ?t1 = "dsub ar (wtime e (Suc (ticks w))) (wtime e (ticks w))"
  have nb: "\<not> (True \<and> 0 < specificThreads)" using n by simp
  show ?thesis
  proof (cases "method = 3")
    case True
    from sequential_ok[OF wf, of ar e ?w2] obtain m' where
      s: "sequentialMatrixMultiplication ar e N (?m, ?w2) =
         Some (\<lparr>timestamp = dsub ar (wtime e (Suc (ticks ?w2))) (wtime e (ticks ?w2)), threads = 1\<rparr>, m',
               ?w2\<lparr>calls := calls ?w2 @ [Sequential N], ticks := Suc (Suc (ticks ?w2))\<rparr>)"
      by blast
    show ?thesis
      apply (rule exI[of _ "d1 + d2"])
      apply (rule exI[of _ "regions w"])
      using True valid_rem[OF v] new_matrix_ok[OF N, of ar] a b w2 s n
        reset_matrix_ok[OF square_zero_matrix[of N ar], of ar]
      by (simp add: do_body_def print_def print_results_eq sweep_table_def sweep_calls_def
            table_header_def)
  next
    case False
    have pos: "\<forall>i \<in> set [0..maxThreads - 1]. 0 \<le> i" by simp
    from sweep_returns[OF N vv wf pos, of ar e ?w2 "dzero ar" "[]"] obtain m' g where
      s: "sweep ar e N NEIB method [0..maxThreads - 1] (?m, ?w2, dzero ar, [])
          = Some (m', ?w2\<lparr>calls := calls ?w2 @ map (sweep_call N NEIB method) [0..maxThreads - 1],
                         ticks := ticks ?w2 + 2 * length [0..maxThreads - 1], regions := g\<rparr>,
                  sweep_time ar e (ticks ?w2) [0..maxThreads - 1] (dzero ar),
                  [] @ sweep_results ar e (ticks ?w2) [0..maxThreads - 1])"
      by blast
    have ne: "sweep_results ar e (ticks w) [0..maxThreads - 1] \<noteq> []"
      by (simp add: upto_0_15)
    show ?thesis
      apply (rule exI[of _ "d1 + d2"])
      apply (rule exI[of _ g])
      using False valid_rem[OF v] new_matrix_ok[OF N, of ar] a b w2 s n ne
      by (simp add: do_body_def print_def print_results_eq sweep_table_def sweep_calls_def
            table_header_def sweep_time_first)
  qed
qed

lemma main_batch:
  "main ar e fuel (Batch N NEIB method n)
   = do_loop ar e fuel True N NEIB method n (initial_world\<lparr>out := [Endl], prec := 8\<rparr>)"
  by (simp add: main_def print_def initial_world_def)

lemma prompt_loop_never_exits:
  "prompt_loop e fuel w = Some (w', left) \<Longrightarrow>
   left = None \<and> calls w' = calls w \<and> ticks w' = ticks w \<and> reads w' = reads w + fuel"
proof (induction fuel arbitrary: w)
  case 0
  then show ?case by simp
next
  case (Suc fuel)
  obtain N NEIB mth where i: "inputs e (reads w) = (N, NEIB, mth)"
    by (cases "inputs e (reads w)") auto
  let ?w1 = "print prompts w\<lparr>reads := Suc (reads w)\<rparr>"
  let ?w2 = "print [Str (''   '' @ divisibility_error), Endl] ?w1"
  from Suc.prems i have "prompt_loop e fuel ?w1 = Some (w', left) \<or> prompt_loop e fuel ?w2 = Some (w', left)"
    by (auto simp add: Let_def split: Option.bind_splits if_splits)
  then show ?case
    using Suc.IH[of ?w1] Suc.IH[of ?w2] by (auto simp add: print_def)
qed

lemma prompt_loop_runs:
  assumes "\<forall>k. case inputs e k of (N, NEIB, method) \<Rightarrow> method = 1 \<longrightarrow> c_rem N NEIB \<noteq> None"
  shows "\<exists>w'. prompt_loop e fuel w = Some (w', None)"
proof (induction fuel arbitrary: w)
  case 0
  then show ?case by simp
next
  case (Suc fuel)
  obtain N NEIB mth where i: "inputs e (reads w) = (N, NEIB, mth)"
    by (cases "inputs e (reads w)") auto
  with assms have "mth = 1 \<longrightarrow> c_rem N NEIB \<noteq> None" by (auto split: prod.splits)
  then obtain r where r: "(if mth = 1 then c_rem N NEIB else Some 0) = Some r"
    by (cases "mth = 1") auto
  show ?case
    using i r Suc.IH by (simp add: Let_def)
qed

lemma main_interactive:
  "main ar e fuel Interactive = Some (w, en) \<Longrightarrow>
   en = OutOfFuel \<and> calls w = [] \<and> ticks w = 0 \<and> reads w = fuel"
proof -
  assume a: "main ar e fuel Interactive = Some (w, en)"
  let ?w0 = "print [Endl] initial_world\<lparr>prec := 8\<rparr>"
  from a obtain w1 left where p: "prompt_loop e fuel ?w0 = Some (w1, left)"
    by (auto simp add: main_def split: Option.bind_splits)
  from prompt_loop_never_exits[OF p] have l: "left = None" "calls w1 = []" "ticks w1 = 0" "reads w1 = fuel"
    by (simp_all add: print_def initial_world_def)
  from a p l show ?thesis by (simp add: main_def)
qed

lemma main_batch_reject:
  assumes "c_rem N NEIB = Some r" "r \<noteq> 0"
  shows "main ar e (Suc fuel) (Batch N NEIB 1 n)
         = Some (initial_world\<lparr>out := [Endl, Str divisibility_error, Endl], prec := 8\<rparr>, Exit 1)"
  by (simp add: main_batch do_body_reject[OF assms] print_def initial_world_def)

lemma main_batch_throw:
  assumes "N < 0" "(if method = 1 then c_rem N NEIB else Some 0) = Some 0"
  shows "main ar e (Suc fuel) (Batch N NEIB method n)
         = Some (initial_world\<lparr>out := [Endl, What, Endl], prec := 8\<rparr>, Exit 0)"
  by (simp add: main_batch do_body_throw[OF assms] print_def initial_world_def)

lemma main_batch_single:
  assumes v: "valid_config N NEIB method" and n: "0 < n"
  shows "\<exists>d g. main ar e (Suc fuel) (Batch N NEIB method n)
           = Some (initial_world\<lparr>out := Endl # csv_line method n (dsub ar (wtime e 1) (wtime e 0)),
                     prec := 8, ticks := 2, draws := d, regions := g,
                     calls := [single_call N NEIB method n]\<rparr>,
                   Exit 0)"
proof -
  from do_body_single[OF v n, of ar e "initial_world\<lparr>out := [Endl], prec := 8\<rparr>"]
  obtain d g where
    "do_body ar e True N NEIB method n (initial_world\<lparr>out := [Endl], prec := 8\<rparr>)
     = Some (initial_world\<lparr>out := Endl # csv_line method n (dsub ar (wtime e 1) (wtime e 0)),
                     prec := 8, ticks := 2, draws := d, regions := g,
                     calls := [single_call N NEIB method n]\<rparr>, Return 0)"
    by (auto simp add: initial_world_def numeral_2_eq_2)
  then show ?thesis by (intro exI[of _ d] exI[of _ g]) (simp add: main_batch)
qed

lemma main_batch_sweep:
  assumes v: "valid_config N NEIB method" and n: "n \<le> 0"
  shows "\<exists>d g. main ar e (Suc fuel) (Batch N NEIB method n)
           = Some (initial_world\<lparr>out := Endl # table_header
                          @ concat (map (table_row ar (dsub ar (wtime e 1) (wtime e 0)))
                                        (sweep_table ar e method 0)),
                     prec := 2, ticks := 2 * length (sweep_calls N NEIB method),
                     draws := d, regions := g, calls := sweep_calls N NEIB method\<rparr>,
                   Exit 0)"
proof -
  from do_body_sweep[OF v n, of ar e "initial_world\<lparr>out := [Endl], prec := 8\<rparr>"]
  obtain d g where
    "do_body ar e True N NEIB method n (initial_world\<lparr>out := [Endl], prec := 8\<rparr>)
     = Some (initial_world\<lparr>out := Endl # table_header
                          @ concat (map (table_row ar (dsub ar (wtime e 1) (wtime e 0)))
                                        (sweep_table ar e method 0)),
                     prec := 2, ticks := 2 * length (sweep_calls N NEIB method),
                     draws := d, regions := g, calls := sweep_calls N NEIB method\<rparr>, Next)"
    by (auto simp add: initial_world_def)
  then show ?thesis by (intro exI[of _ d] exI[of _ g]) (simp add: main_batch)
qed

lemma rem_cases:
  "(if method = 1 then c_rem N NEIB else Some 0) = None
   \<or> (\<exists>r. method = 1 \<and> c_rem N NEIB = Some r \<and> r \<noteq> 0)
   \<or> (if method = 1 then c_rem N NEIB else Some 0) = Some 0"
  by (cases "method = 1"; cases "c_rem N NEIB") auto

lemma rem_valid:
  "(if method = 1 then c_rem N NEIB else Some 0) = Some 0 \<Longrightarrow> 0 \<le> N \<Longrightarrow> valid_config N NEIB method"
  by (auto simp add: valid_config_def c_rem_def split: if_splits)

lemma call_threads_sweep: "c \<in> set (sweep_calls N NEIB method) \<Longrightarrow> 1 \<le> call_threads c \<and> call_threads c \<le> 16"
  by (auto simp add: sweep_calls_def sweep_call_def call_threads_def maxThreads_def split: if_splits)

lemma no_precision_8_in_table: "Dbl 8 t \<notin> set (concat (map (table_row ar st) rs))"
  by (auto simp add: table_row_def)

lemma main_batch_nonpositive:
  assumes n: "n \<le> 0" and m: "main ar e fuel (Batch N NEIB method n) = Some (w, en)"
  shows "(\<forall>c \<in> set (calls w). 1 \<le> call_threads c \<and> call_threads c \<le> 16) \<and> (\<forall>t. Dbl 8 t \<notin> set (out w))"
proof (cases fuel)
  case 0
  with m show ?thesis by (auto simp add: main_batch initial_world_def)
next
  case (Suc f)
  from rem_cases[of "method" N NEIB] show ?thesis
  proof (elim disjE exE conjE)
    assume "(if method = 1 then c_rem N NEIB else Some 0) = None"
    then have "do_body ar e True N NEIB method n (initial_world\<lparr>out := [Endl], prec := 8\<rparr>) = None"
      by (simp add: do_body_def)
    with m Suc show ?thesis by (simp add: main_batch)
  next
    fix r assume "method = 1" "c_rem N NEIB = Some r" "r \<noteq> 0"
    with m Suc main_batch_reject[of N NEIB r ar e f n] show ?thesis
      by (auto simp add: initial_world_def)
  next
    assume z: "(if method = 1 then c_rem N NEIB else Some 0) = Some 0"
    show ?thesis
    proof (cases "N < 0")
      case True
      with m Suc main_batch_throw[OF True z, of ar e f n] show ?thesis
        by (auto simp add: initial_world_def)
    next
      case False
      then have v: "valid_config N NEIB method" using rem_valid[OF z] by simp
      from main_batch_sweep[OF v n, of ar e f] m Suc show ?thesis
        using call_threads_sweep[of _ N NEIB "method"]
          no_precision_8_in_table[of _ ar "dsub ar (wtime e 1) (wtime e 0)" "sweep_table ar e method 0"]
        by (auto simp add: table_header_def)
    qed
  qed
qed

lemma sweep_table_first:
  "\<exists>rest. sweep_table ar e method 0
     = (1, \<lparr>timestamp = dsub ar (wtime e 1) (wtime e 0), threads = 1\<rparr>) # rest"
  by (simp add: sweep_table_def upto_0_15)

lemma ieee_div_self: "x \<noteq> 0 \<Longrightarrow> ddiv ieee_arith (Fin x) (Fin x) = dint ieee_arith 1"
  by (simp add: ieee_arith_def)

lemma ieee_div_zero: "not_finite (ddiv ieee_arith (Fin b) (Fin 0))"
  by (simp add: ieee_arith_def not_finite_def)

lemma ieee_div_not_finite: "not_finite x \<Longrightarrow> not_finite (ddiv ieee_arith x (Fin y))"
  by (cases x) (simp_all add: ieee_arith_def not_finite_def)

lemma stuck_rows:
  "map (table_row ieee_arith (Fin 0)) (sweep_results ieee_arith stuck_env t is)
   = map nan_row (map (\<lambda>i. i + 1) is)"
  by (induction "is" arbitrary: t)
     (simp_all add: table_row_def nan_row_def stuck_env_def ieee_arith_def)

lemma succ_upto: "map (\<lambda>i. i + 1) [0..15] = [1..16]"
  by (simp add: upto.simps)

lemma out_print_results:
  "out (print_results ar st rs w) = out w @ concat (map (table_row ar st) rs)"
  by (simp add: print_results_eq)

lemma output_of_Some: "res = Some (w, en) \<Longrightarrow> output_of res = Some (out w)"
  by (simp add: output_of_def)

lemma main_sweep_output:
  assumes v: "valid_config N NEIB method" and n: "n \<le> 0" and f: "0 < fuel"
  shows "output_of (main ar e fuel (Batch N NEIB method n))
         = Some (Endl # table_header
                 @ concat (map (table_row ar (dsub ar (wtime e 1) (wtime e 0)))
                               (sweep_table ar e method 0)))"
proof -
  obtain f' where f': "fuel = Suc f'" using f by (cases fuel) auto
  from main_batch_sweep[OF v n, of ar e f'] f' show ?thesis
    by (auto dest!: output_of_Some)
qed

text \<open>Every execution of a team is the run of some scheduler, so what holds of
  \<^const>\<open>run_threads\<close> for every scheduler holds of every interleaving.\<close>

lemma join_finished: "list_all (\<lambda>th. th = (None, [])) ths \<Longrightarrow> join_threads ar ths m = Some m"
  by (induction ths) (simp_all add: thread_finish_def)

lemma team_run_scheduled: "team_run ar ths m m' \<Longrightarrow> \<exists>sg. run_threads ar sg ths m = Some m'"
proof (induction rule: team_run.induct)
  case (finished ths ar m)
  then have "run_threads ar [] ths m = Some m" by (simp add: join_finished)
  then show ?case by blast
next
  case (step t ths ar m th' m' m'')
  then obtain sg where "run_threads ar sg (ths[t := th']) m' = Some m''" by blast
  with step have "run_threads ar (t # sg) ths m = Some m''" by simp
  then show ?case by blast
qed

lemma team_run_deterministic:
  assumes wf: "wf_mem N m" and nt: "0 < nThreads"
    and ib: "\<forall>it \<in> set iters. list_all (inb N) it" and dj: "disjoint_iters iters"
    and run: "team_run ar (map (\<lambda>prog. (None, prog)) (thread_programs owner (nat nThreads) iters)) m m'"
  shows "omp_parallel_for ar (owner', sg') nThreads iters m = Some m'"
proof -
  let ?ths = "map (\<lambda>prog. (None, prog)) (thread_programs owner (nat nThreads) iters)"
  from team_run_scheduled[OF run] obtain sg where sg: "run_threads ar sg ?ths m = Some m'" by blast
  then have 1: "omp_parallel_for ar (owner, sg) nThreads iters m = Some m'"
    using nt by (simp add: omp_parallel_for_def)
  from omp_parallel_for_cells[OF wf nt ib dj, of ar "(owner, sg)"] 1
  have c1: "cells_rel ar N (concat iters) m m'" by simp
  from omp_parallel_for_cells[OF wf nt ib dj, of ar "(owner', sg')"] obtain m2 where
    2: "omp_parallel_for ar (owner', sg') nThreads iters m = Some m2"
    and c2: "cells_rel ar N (concat iters) m m2" by blast
  have sq: "square N (mat_c m')" "square N (mat_c m2)"
    using c1 c2 by (simp_all add: cells_rel_def wf_mem_def)
  have "mat_c m' = mat_c m2"
    by (rule square_ext[OF sq]) (use c1 c2 in \<open>simp add: cells_rel_def\<close>)
  moreover have "same_but_c m m'" "same_but_c m m2"
    using omp_parallel_for_frame[OF 1] omp_parallel_for_frame[OF 2] by simp_all
  ultimately have "heap m' = heap m2" and "ref_a m' = ref_a m2"
    and "ref_b m' = ref_b m2" and "ref_c m' = ref_c m2"
    by (auto simp add: same_but_c_def mat_c_def fun_eq_iff) metis
  then have "m' = m2" by simp
  with 2 show ?thesis by simp
qed

text \<open>A block size that is negative and divides \<open>N\<close> passes the test of line 70
  (\<^verbatim>\<open>4 % -2 == 0\<close>); the blocked strategy then has no block to work on and returns the
  output as it received it.\<close>

lemma blocked_negative_block_size:
  assumes "0 \<le> N" and "NEIB < 0"
  shows "result_c (blockedMatrixMultiplication ar e N NEIB nThreads (m, w)) = Some (mat_c m)"
proof -
  have d: "c_div N NEIB = Some (N sdiv NEIB)" using assms by (simp add: c_div_def)
  have "N sdiv NEIB \<le> 0"
    using assms by (cases "N = 0") (simp_all add: signed_divide_int_def sgn_if pos_imp_zdiv_nonneg_iff)
  then have e: "[0..N sdiv NEIB - 1] = []" by simp
  show ?thesis
    using d e by (simp add: blockedMatrixMultiplication_def omp_get_wtime_def result_c_def)
qed

text \<open>The signature does not keep a caller from passing one vector as \<^verbatim>\<open>a\<close> and as
  \<^verbatim>\<open>c\<close>; then the input is overwritten (here \<open>1\<close> becomes \<open>1 + 1 * 1\<close>).\<close>

lemma aliased_output_overwrites_input:
  "\<not> inputs_kept aliased_mem (sequentialMatrixMultiplication ieee_arith demo_env 1 (aliased_mem, initial_world))"
  by (simp add: inputs_kept_def sequentialMatrixMultiplication_def omp_get_wtime_def
        sequential_loops_def exec_stmt_def stmt_read_def stmt_write_def load_def store_def
        mat_a_def mat_b_def mat_c_def put_c_def aliased_mem_def ieee_arith_def)

text \<open>Two memories reached from \<open>m\<close> that hold the same accumulated cells, and differ
  from \<open>m\<close> in the output object only, are the same memory.\<close>

lemma cells_rel_unique:
  assumes c1: "cells_rel ar N ss m m1" and c2: "cells_rel ar N ss m m2"
    and f1: "same_but_c m m1" and f2: "same_but_c m m2"
  shows "m1 = m2"
proof -
  have sq: "square N (mat_c m1)" "square N (mat_c m2)"
    using c1 c2 by (simp_all add: cells_rel_def wf_mem_def)
  have "mat_c m1 = mat_c m2"
    by (rule square_ext[OF sq]) (use c1 c2 in \<open>simp add: cells_rel_def\<close>)
  then have "heap m1 = heap m2" and "ref_a m1 = ref_a m2"
    and "ref_b m1 = ref_b m2" and "ref_c m1 = ref_c m2"
    using f1 f2 by (auto simp add: same_but_c_def mat_c_def fun_eq_iff) metis
  then show ?thesis by simp
qed

lemma inb_concat: "\<forall>it \<in> set iters. list_all (inb N) it \<Longrightarrow> list_all (inb N) (concat iters)"
  by (auto simp add: list_all_iff)

text \<open>A parallel loop whose iterations write disjoint cells ends, under every schedule
  and in every interleaving, in the memory that its iterations executed one after the
  other leave.\<close>

lemma omp_parallel_for_sequential:
  assumes wf: "wf_mem N m" and nt: "0 < nThreads"
    and ib: "\<forall>it \<in> set iters. list_all (inb N) it" and dj: "disjoint_iters iters"
  shows "\<exists>m'. run_stmts ar (concat iters) m = Some m'
           \<and> cells_rel ar N (concat iters) m m'
           \<and> (\<forall>sch. omp_parallel_for ar sch nThreads iters m = Some m')
           \<and> (\<forall>owner sg. run_threads ar sg
                 (map (\<lambda>prog. (None, prog)) (thread_programs owner (nat nThreads) iters)) m = Some m')
           \<and> (\<forall>owner m''. team_run ar
                 (map (\<lambda>prog. (None, prog)) (thread_programs owner (nat nThreads) iters)) m m''
                 \<longrightarrow> m'' = m')"
proof -
  from run_stmts_cells[OF wf inb_concat[OF ib], of ar] obtain m' where
    r: "run_stmts ar (concat iters) m = Some m'" and c: "cells_rel ar N (concat iters) m m'"
    by blast
  have o: "omp_parallel_for ar sch nThreads iters m = Some m'" for sch
  proof -
    from omp_parallel_for_cells[OF wf nt ib dj, of ar sch] obtain m2 where
      o2: "omp_parallel_for ar sch nThreads iters m = Some m2"
      and c2: "cells_rel ar N (concat iters) m m2" by blast
    from cells_rel_unique[OF c2 c omp_parallel_for_frame[OF o2] run_stmts_frame[OF r]] o2
    show ?thesis by simp
  qed
  have t: "run_threads ar sg
             (map (\<lambda>prog. (None, prog)) (thread_programs owner (nat nThreads) iters)) m = Some m'"
    for owner sg
    using o[of "(owner, sg)"] nt by (simp add: omp_parallel_for_def)
  have u: "m'' = m'"
    if "team_run ar (map (\<lambda>prog. (None, prog)) (thread_programs owner (nat nThreads) iters)) m m''"
    for owner m''
    using team_run_deterministic[OF wf nt ib dj that, of "\<lambda>x. x" "[]"] o[of "(\<lambda>x. x, [])"] by simp
  from r c o t u show ?thesis by blast
qed

lemma inb_blocked_all:
  assumes "0 < NEIB" and "set ps \<subseteq> {0..NB - 1}"
  shows "list_all (inb (NB * NEIB))
           (concat (map (\<lambda>p. concat (map (blocked_iteration NB NEIB p) [0..NB - 1])) ps))"
proof -
  have "list_all (inb (NB * NEIB)) (concat (map (blocked_iteration NB NEIB p) [0..NB - 1]))"
    if "p \<in> set ps" for p
  proof -
    from that assms(2) have "0 \<le> p" "p < NB" by auto
    from inb_concat[OF inb_blocked[OF assms(1) this]] show ?thesis .
  qed
  then show ?thesis by (auto simp add: list_all_iff)
qed

lemma blocked_regions_sequential:
  assumes NEIB: "0 < NEIB" and nt: "0 < nThreads"
    and wf: "wf_mem (NB * NEIB) m" and ps: "set ps \<subseteq> {0..NB - 1}"
  shows "\<exists>m'. run_stmts ar
                 (concat (map (\<lambda>p. concat (map (blocked_iteration NB NEIB p) [0..NB - 1])) ps)) m
               = Some m'
           \<and> (\<forall>sch reg. blocked_regions ar sch nThreads NB NEIB ps reg m = Some (m', reg + length ps))"
proof -
  let ?all = "concat (map (\<lambda>p. concat (map (blocked_iteration NB NEIB p) [0..NB - 1])) ps)"
  from run_stmts_cells[OF wf inb_blocked_all[OF NEIB ps], of ar] obtain m' where
    r: "run_stmts ar ?all m = Some m'" and c: "cells_rel ar (NB * NEIB) ?all m m'"
    by blast
  have "blocked_regions ar sch nThreads NB NEIB ps reg m = Some (m', reg + length ps)" for sch reg
  proof -
    from blocked_regions_cells[OF NEIB nt wf ps, of ar sch reg] obtain m2 where
      b: "blocked_regions ar sch nThreads NB NEIB ps reg m = Some (m2, reg + length ps)"
      and c2: "cells_rel ar (NB * NEIB) ?all m m2" by blast
    from cells_rel_unique[OF c2 c blocked_regions_frame[OF b] run_stmts_frame[OF r]] b
    show ?thesis by simp
  qed
  with r show ?thesis by blast
qed

lemma blocked_sequential:
  assumes wf: "wf_mem N m" and N: "0 \<le> N" and NEIB: "0 < NEIB" and dv: "N smod NEIB = 0"
    and nt: "0 < nThreads"
  shows "\<exists>m'. run_stmts ar
                 (concat (map (\<lambda>p. concat (map (blocked_iteration (N sdiv NEIB) NEIB p)
                                                 [0..N sdiv NEIB - 1])) [0..N sdiv NEIB - 1])) m
               = Some m'
           \<and> (\<forall>e w. \<exists>r w'. blockedMatrixMultiplication ar e N NEIB nThreads (m, w) = Some (r, m', w'))"
proof -
  let ?NB = "N sdiv NEIB"
  note bc = block_count[OF N NEIB dv]
  have wf': "wf_mem (?NB * NEIB) m" using wf bc(3) by simp
  from blocked_regions_sequential[OF NEIB nt wf', of "[0..?NB - 1]" ar] obtain m' where
    r: "run_stmts ar (concat (map (\<lambda>p. concat (map (blocked_iteration ?NB NEIB p) [0..?NB - 1]))
                               [0..?NB - 1])) m = Some m'"
    and b: "\<forall>sch reg. blocked_regions ar sch nThreads ?NB NEIB [0..?NB - 1] reg m
                       = Some (m', reg + length [0..?NB - 1])"
    by auto
  have "\<exists>r w'. blockedMatrixMultiplication ar e N NEIB nThreads (m, w) = Some (r, m', w')" for e w
    using b bc(1) by (simp add: blockedMatrixMultiplication_def omp_get_wtime_def)
  with r show ?thesis by blast
qed

lemma stmt_cells_thread:
  "t < n \<Longrightarrow> stmt_cells (thread_programs owner n iters ! t)
     = (\<Union>x \<in> {x. x < length iters \<and> owner x mod n = t}. stmt_cells (iters ! x))"
  by (simp add: thread_programs_def stmt_cells_program)

text \<open>The cells a thread of a region writes lie in block row \<open>p\<close> and in the block
  columns \<open>q\<close> of the iterations it was given.\<close>

lemma thread_cells_owned:
  assumes "t < n"
  shows "stmt_cells (thread_programs owner n (map (blocked_iteration NB NEIB p) [0..NB - 1]) ! t)
         \<subseteq> set (block_range NEIB p)
             \<times> (\<Union>q \<in> {q. 0 \<le> q \<and> q < NB \<and> owner (nat q) mod n = t}. set (block_range NEIB q))"
proof
  fix c assume c: "c \<in> stmt_cells (thread_programs owner n (map (blocked_iteration NB NEIB p) [0..NB - 1]) ! t)"
  let ?iters = "map (blocked_iteration NB NEIB p) [0..NB - 1]"
  from stmt_cells_thread[OF assms, of owner ?iters] c obtain x where x: "x < length ?iters" "owner x mod n = t" "c \<in> stmt_cells (?iters ! x)"
    by blast
  from x(1) have xb: "int x < NB" by simp
  then have nth: "?iters ! x = blocked_iteration NB NEIB p (int x)" using x(1) by simp
  from x(3) nth stmt_cells_blocked_iteration[of NB NEIB p "int x"]
  have "c \<in> set (block_range NEIB p) \<times> set (block_range NEIB (int x))" by auto
  moreover have "int x \<in> {q. 0 \<le> q \<and> q < NB \<and> owner (nat q) mod n = t}" using xb x(2) by simp
  ultimately show "c \<in> set (block_range NEIB p)
             \<times> (\<Union>q \<in> {q. 0 \<le> q \<and> q < NB \<and> owner (nat q) mod n = t}. set (block_range NEIB q))"
    by blast
qed

section \<open>The claims\<close>

text \<open>
  \<^bold>\<open>C10.\<close>  Every strategy accumulates into the output matrix: for \<open>N \<times> N\<close> matrices
  \<open>A\<close>, \<open>B\<close> and any \<open>N \<times> N\<close> initial output \<open>C0\<close>, each of the three calls returns, and
  leaves in every cell \<open>(i, j)\<close> the value \<open>C0[i][j] + A[i][0] * B[0][j] + \<dots>\<close>, the
  products added in ascending \<open>k\<close>, whatever the schedule of the parallel regions (the
  environment \<open>e\<close>) and the number of threads.  With \<open>C0\<close> all zero this is the dense
  product; with another \<open>C0\<close> it need not be (here \<open>1 + 1 * 1\<close> against \<open>0 + 1 * 1\<close>).
\<close>

theorem strategies_accumulate:
  assumes "wf_mem N m" and "0 \<le> N" and "0 < NEIB" and "N smod NEIB = 0" and "0 < nThreads"
  shows "result_c (sequentialMatrixMultiplication ar e N (m, w))
           = Some (mac_product ar N (mat_a m) (mat_b m) (mat_c m))
       \<and> result_c (standardMatrixMultiplication ar e N nThreads (m, w))
           = Some (mac_product ar N (mat_a m) (mat_b m) (mat_c m))
       \<and> result_c (blockedMatrixMultiplication ar e N NEIB nThreads (m, w))
           = Some (mac_product ar N (mat_a m) (mat_b m) (mat_c m))
       \<and> mac_product ar N (mat_a m) (mat_b m) (zero_matrix ar N) = dense_product ar N (mat_a m) (mat_b m)
       \<and> mac_product ieee_arith 1 [[Fin 1]] [[Fin 1]] [[Fin 1]]
           \<noteq> dense_product ieee_arith 1 [[Fin 1]] [[Fin 1]]"
proof -
  from sequential_ok[OF assms(1), of ar e w] have 1:
    "result_c (sequentialMatrixMultiplication ar e N (m, w))
       = Some (mac_product ar N (mat_a m) (mat_b m) (mat_c m))"
    by (auto dest: result_c_Some)
  from standard_ok[OF assms(1,5), of ar e w] have 2:
    "result_c (standardMatrixMultiplication ar e N nThreads (m, w))
       = Some (mac_product ar N (mat_a m) (mat_b m) (mat_c m))"
    by (auto dest: result_c_Some)
  from blocked_ok[OF assms, of ar e w] have 3:
    "result_c (blockedMatrixMultiplication ar e N NEIB nThreads (m, w))
       = Some (mac_product ar N (mat_a m) (mat_b m) (mat_c m))"
    by (auto dest: result_c_Some)
  have 4: "mac_product ieee_arith 1 [[Fin 1]] [[Fin 1]] [[Fin 1]]
           \<noteq> dense_product ieee_arith 1 [[Fin 1]] [[Fin 1]]"
    by (simp add: mac_product_def dense_product_def ieee_arith_def cell_def upto.simps)
  from 1 2 3 4 show ?thesis by (simp add: mac_product_zero)
qed

theorem strategies_accumulate_witness:
  "wf_mem 2 (demo_mem [[Fin 1, Fin 1], [Fin 1, Fin 1]]) \<and> (0::int) \<le> 2 \<and> (0::int) < 1 \<and> (2::int) smod 1 = 0
   \<and> (0::int) < 2
   \<and> result_c (sequentialMatrixMultiplication ieee_arith demo_env 2
        (demo_mem [[Fin 1, Fin 1], [Fin 1, Fin 1]], initial_world))
       = Some [[Fin 20, Fin 23], [Fin 44, Fin 51]]
   \<and> result_c (standardMatrixMultiplication ieee_arith demo_env 2 2
        (demo_mem [[Fin 1, Fin 1], [Fin 1, Fin 1]], initial_world))
       = Some [[Fin 20, Fin 23], [Fin 44, Fin 51]]
   \<and> result_c (blockedMatrixMultiplication ieee_arith demo_env 2 1 2
        (demo_mem [[Fin 1, Fin 1], [Fin 1, Fin 1]], initial_world))
       = Some [[Fin 20, Fin 23], [Fin 44, Fin 51]]"
proof -
  have h: "wf_mem 2 (demo_mem [[Fin 1, Fin 1], [Fin 1, Fin 1]])"
    by (simp add: wf_mem_locals square_def demo_mem_def)
  have v: "mac_product ieee_arith 2 (mat_a (demo_mem [[Fin 1, Fin 1], [Fin 1, Fin 1]]))
             (mat_b (demo_mem [[Fin 1, Fin 1], [Fin 1, Fin 1]]))
             (mat_c (demo_mem [[Fin 1, Fin 1], [Fin 1, Fin 1]]))
           = [[Fin 20, Fin 23], [Fin 44, Fin 51]]"
    by (simp add: mac_product_def demo_mem_def ieee_arith_def cell_def upto.simps)
  show ?thesis
    using strategies_accumulate[OF h, of 1 2 ieee_arith demo_env initial_world] h v
    by (simp add: signed_modulo_int_def)
qed

text \<open>
  \<^bold>\<open>C1.\<close>  For \<open>N > 0\<close>, \<open>N \<times> N\<close> matrices \<open>A\<close> and \<open>B\<close>, an all-zero \<open>N \<times> N\<close> output,
  a block size \<open>NEIB > 0\<close> with \<^verbatim>\<open>N % NEIB == 0\<close> and positive thread counts, the blocked,
  the flat-parallel and the sequential strategy all return, each with the same output
  matrix, whatever the schedules (the environments \<open>e1\<close>, \<open>e2\<close>, \<open>e3\<close> are arbitrary) and
  the thread counts: the dense product, whose cell \<open>(i, j)\<close> is the sum over \<open>k\<close> of
  \<open>A[i][k] * B[k][j]\<close>, added in ascending \<open>k\<close> to \<open>0.0\<close>.  The equality is exact (no
  law of the arithmetic is used); in exact real arithmetic the cell is \<open>\<Sum>k. A[i][k] * B[k][j]\<close>.
\<close>

theorem strategies_agree:
  assumes "0 < N" and "wf_mem N m" and "mat_c m = zero_matrix ar N"
    and "0 < NEIB" and "N smod NEIB = 0" and "0 < nT1" and "0 < nT2"
  shows "result_c (blockedMatrixMultiplication ar e1 N NEIB nT1 (m, w1))
           = Some (dense_product ar N (mat_a m) (mat_b m))
       \<and> result_c (standardMatrixMultiplication ar e2 N nT2 (m, w2))
           = Some (dense_product ar N (mat_a m) (mat_b m))
       \<and> result_c (sequentialMatrixMultiplication ar e3 N (m, w3))
           = Some (dense_product ar N (mat_a m) (mat_b m))
       \<and> (\<forall>i j. 0 \<le> i \<and> i < N \<and> 0 \<le> j \<and> j < N \<longrightarrow>
            cell (dense_product ar N (mat_a m) (mat_b m)) i j
              = foldl (\<lambda>acc k. dadd ar acc (dmul ar (cell (mat_a m) i k) (cell (mat_b m) k j)))
                  (dzero ar) [0..N - 1])
       \<and> (\<forall>a b i j. 0 \<le> i \<and> i < N \<and> 0 \<le> j \<and> j < N \<longrightarrow>
            cell (dense_product real_arith N a b) i j = (\<Sum>k = 0..N - 1. cell a i k * cell b k j))"
proof -
  have N: "0 \<le> N" using assms(1) by simp
  have z: "mac_product ar N (mat_a m) (mat_b m) (mat_c m) = dense_product ar N (mat_a m) (mat_b m)"
    using assms(3) by (simp add: mac_product_zero)
  from blocked_ok[OF assms(2) N assms(4,5,6), of ar e1 w1] z have 1:
    "result_c (blockedMatrixMultiplication ar e1 N NEIB nT1 (m, w1))
       = Some (dense_product ar N (mat_a m) (mat_b m))"
    by (auto dest: result_c_Some)
  from standard_ok[OF assms(2,7), of ar e2 w2] z have 2:
    "result_c (standardMatrixMultiplication ar e2 N nT2 (m, w2))
       = Some (dense_product ar N (mat_a m) (mat_b m))"
    by (auto dest: result_c_Some)
  from sequential_ok[OF assms(2), of ar e3 w3] z have 3:
    "result_c (sequentialMatrixMultiplication ar e3 N (m, w3))
       = Some (dense_product ar N (mat_a m) (mat_b m))"
    by (auto dest: result_c_Some)
  have 4: "\<forall>i j. 0 \<le> i \<and> i < N \<and> 0 \<le> j \<and> j < N \<longrightarrow>
            cell (dense_product ar N (mat_a m) (mat_b m)) i j
              = foldl (\<lambda>acc k. dadd ar acc (dmul ar (cell (mat_a m) i k) (cell (mat_b m) k j)))
                  (dzero ar) [0..N - 1]"
    by (simp add: dense_product_def cell_def[of "map _ _"] nth_upto0)
  have 5: "\<forall>a b i j. 0 \<le> i \<and> i < N \<and> 0 \<le> j \<and> j < N \<longrightarrow>
            cell (dense_product real_arith N a b) i j = (\<Sum>k = 0..N - 1. cell a i k * cell b k j)"
    by (simp add: cell_dense_product_real)
  from 1 2 3 4 5 show ?thesis by blast
qed

theorem strategies_agree_witness:
  "(0::int) < 2 \<and> wf_mem 2 (demo_mem [[Fin 0, Fin 0], [Fin 0, Fin 0]])
   \<and> mat_c (demo_mem [[Fin 0, Fin 0], [Fin 0, Fin 0]]) = zero_matrix ieee_arith 2
   \<and> (0::int) < 1 \<and> (2::int) smod 1 = 0 \<and> (0::int) < 3 \<and> (0::int) < 2
   \<and> result_c (blockedMatrixMultiplication ieee_arith demo_env 2 1 3
        (demo_mem [[Fin 0, Fin 0], [Fin 0, Fin 0]], initial_world))
       = Some [[Fin 19, Fin 22], [Fin 43, Fin 50]]
   \<and> result_c (standardMatrixMultiplication ieee_arith demo_env 2 2
        (demo_mem [[Fin 0, Fin 0], [Fin 0, Fin 0]], initial_world))
       = Some [[Fin 19, Fin 22], [Fin 43, Fin 50]]
   \<and> result_c (sequentialMatrixMultiplication ieee_arith demo_env 2
        (demo_mem [[Fin 0, Fin 0], [Fin 0, Fin 0]], initial_world))
       = Some [[Fin 19, Fin 22], [Fin 43, Fin 50]]"
proof -
  have h: "wf_mem 2 (demo_mem [[Fin 0, Fin 0], [Fin 0, Fin 0]])"
    by (simp add: wf_mem_locals square_def demo_mem_def)
  have z: "mat_c (demo_mem [[Fin 0, Fin 0], [Fin 0, Fin 0]]) = zero_matrix ieee_arith 2"
    by (simp add: demo_mem_def zero_matrix_def ieee_arith_def numeral_2_eq_2)
  have v: "dense_product ieee_arith 2 (mat_a (demo_mem [[Fin 0, Fin 0], [Fin 0, Fin 0]]))
             (mat_b (demo_mem [[Fin 0, Fin 0], [Fin 0, Fin 0]]))
           = [[Fin 19, Fin 22], [Fin 43, Fin 50]]"
    by (simp add: dense_product_def demo_mem_def ieee_arith_def cell_def upto.simps)
  have s: "(2::int) smod 1 = 0" by (simp add: signed_modulo_int_def)
  show ?thesis
    using strategies_agree[OF _ h z _ s, of 3 2 demo_env initial_world demo_env initial_world
        demo_env initial_world] h z v s
    by simp
qed

text \<open>
  \<^bold>\<open>C8.\<close>  Every strategy leaves \<open>A\<close> and \<open>B\<close> as they were.  A call that returns (that
  has no undefined behaviour) has changed no vector object other than the one its
  parameter \<^verbatim>\<open>c\<close> refers to, for every memory, environment and thread count; so when
  the output is a different object from both inputs (as it is in \<^verbatim>\<open>main\<close>) the call
  returns with the same \<open>A\<close> and the same \<open>B\<close>.  And on \<open>N \<times> N\<close> matrices, with a block
  size that divides \<open>N\<close> and a positive thread count, the three calls do return.
\<close>

theorem inputs_unchanged:
  assumes "ref_c m \<noteq> ref_a m" and "ref_c m \<noteq> ref_b m"
  shows "inputs_kept m (blockedMatrixMultiplication ar e N NEIB nThreads (m, w))
       \<and> inputs_kept m (standardMatrixMultiplication ar e N nThreads (m, w))
       \<and> inputs_kept m (sequentialMatrixMultiplication ar e N (m, w))
       \<and> others_kept m (blockedMatrixMultiplication ar e N NEIB nThreads (m, w))
       \<and> others_kept m (standardMatrixMultiplication ar e N nThreads (m, w))
       \<and> others_kept m (sequentialMatrixMultiplication ar e N (m, w))
       \<and> (wf_mem N m \<and> 0 \<le> N \<and> 0 < NEIB \<and> N smod NEIB = 0 \<and> 0 < nThreads \<longrightarrow>
            blockedMatrixMultiplication ar e N NEIB nThreads (m, w) \<noteq> None
            \<and> standardMatrixMultiplication ar e N nThreads (m, w) \<noteq> None
            \<and> sequentialMatrixMultiplication ar e N (m, w) \<noteq> None)"
proof -
  have "blockedMatrixMultiplication ar e N NEIB nThreads (m, w) \<noteq> None
        \<and> standardMatrixMultiplication ar e N nThreads (m, w) \<noteq> None
        \<and> sequentialMatrixMultiplication ar e N (m, w) \<noteq> None"
    if h: "wf_mem N m" "0 \<le> N" "0 < NEIB" "N smod NEIB = 0" "0 < nThreads"
    using blocked_ok[OF h, of ar e w] standard_ok[OF h(1,5), of ar e w]
      sequential_ok[OF h(1), of ar e w]
    by auto
  then show ?thesis
    using blocked_frame[of m ar e N NEIB nThreads w] standard_frame[of m ar e N nThreads w]
      sequential_frame[of m ar e N w] others_kept_inputs[OF _ assms]
    by blast
qed

theorem inputs_unchanged_witness:
  "ref_c (demo_mem [[Fin 0, Fin 0], [Fin 0, Fin 0]]) \<noteq> ref_a (demo_mem [[Fin 0, Fin 0], [Fin 0, Fin 0]])
   \<and> ref_c (demo_mem [[Fin 0, Fin 0], [Fin 0, Fin 0]]) \<noteq> ref_b (demo_mem [[Fin 0, Fin 0], [Fin 0, Fin 0]])
   \<and> inputs_kept (demo_mem [[Fin 0, Fin 0], [Fin 0, Fin 0]])
       (blockedMatrixMultiplication ieee_arith demo_env 2 1 2
          (demo_mem [[Fin 0, Fin 0], [Fin 0, Fin 0]], initial_world))
   \<and> wf_mem 2 (demo_mem [[Fin 0, Fin 0], [Fin 0, Fin 0]]) \<and> (0::int) \<le> 2 \<and> (0::int) < 1
   \<and> (2::int) smod 1 = 0 \<and> (0::int) < 2
   \<and> blockedMatrixMultiplication ieee_arith demo_env 2 1 2
        (demo_mem [[Fin 0, Fin 0], [Fin 0, Fin 0]], initial_world) \<noteq> None"
proof -
  have h: "wf_mem 2 (demo_mem [[Fin 0, Fin 0], [Fin 0, Fin 0]])"
    by (simp add: wf_mem_locals square_def demo_mem_def)
  have s: "(2::int) smod 1 = 0" by (simp add: signed_modulo_int_def)
  have r: "ref_c (demo_mem [[Fin 0, Fin 0], [Fin 0, Fin 0]]) \<noteq> ref_a (demo_mem [[Fin 0, Fin 0], [Fin 0, Fin 0]])"
    "ref_c (demo_mem [[Fin 0, Fin 0], [Fin 0, Fin 0]]) \<noteq> ref_b (demo_mem [[Fin 0, Fin 0], [Fin 0, Fin 0]])"
    by (simp_all add: demo_mem_def)
  show ?thesis
    using inputs_unchanged[OF r, of ieee_arith demo_env 2 1 2 initial_world] h s r
    by simp
qed

text \<open>
  \<^bold>\<open>C2.\<close>  With the blocked method and \<^verbatim>\<open>N % NEIB\<close> defined and not zero, the
  configuration is rejected before anything is computed.  In batch mode the whole run
  is: the blank line of line 48, the message, exit status 1; no matrix is initialised
  (no random draw), the clock is never read and no strategy is called.  In interactive
  mode a pass through the prompt loop that reads such a triple writes the three prompts
  and the message and goes round again, to write the prompts anew, with nothing else
  changed.
\<close>

theorem indivisible_size_rejected:
  assumes "c_rem N NEIB = Some r" and "r \<noteq> 0"
  shows "(0 < fuel \<longrightarrow>
            main ar e fuel (Batch N NEIB 1 specificThreads)
              = Some (initial_world\<lparr>out := [Endl, Str divisibility_error, Endl], prec := 8\<rparr>, Exit 1))
       \<and> (inputs e (reads w) = (N, NEIB, 1) \<longrightarrow>
            prompt_loop e (Suc fuel) w
              = prompt_loop e fuel
                  (w\<lparr>out := out w @ prompts @ [Str (''   '' @ divisibility_error), Endl],
                     reads := Suc (reads w)\<rparr>))"
proof -
  have 1: "0 < fuel \<longrightarrow>
            main ar e fuel (Batch N NEIB 1 specificThreads)
              = Some (initial_world\<lparr>out := [Endl, Str divisibility_error, Endl], prec := 8\<rparr>, Exit 1)"
    using main_batch_reject[OF assms, of ar e "fuel - 1" specificThreads] by (cases fuel) simp_all
  have 2: "inputs e (reads w) = (N, NEIB, 1) \<longrightarrow>
            prompt_loop e (Suc fuel) w
              = prompt_loop e fuel
                  (w\<lparr>out := out w @ prompts @ [Str (''   '' @ divisibility_error), Endl],
                     reads := Suc (reads w)\<rparr>)"
  proof
    assume i: "inputs e (reads w) = (N, NEIB, 1)"
    have a: "prompt_loop e (Suc fuel) w
             = prompt_loop e fuel
                 (w\<lparr>reads := Suc (reads w),
                    out := out w @ prompts @ [Str (''   '' @ divisibility_error), Endl]\<rparr>)"
      using assms i by (simp add: Let_def print_def)
    have b: "w\<lparr>reads := Suc (reads w),
               out := out w @ prompts @ [Str (''   '' @ divisibility_error), Endl]\<rparr>
             = w\<lparr>out := out w @ prompts @ [Str (''   '' @ divisibility_error), Endl],
                 reads := Suc (reads w)\<rparr>"
      by (cases w) simp
    show "prompt_loop e (Suc fuel) w
              = prompt_loop e fuel
                  (w\<lparr>out := out w @ prompts @ [Str (''   '' @ divisibility_error), Endl],
                     reads := Suc (reads w)\<rparr>)"
      by (rule trans[OF a arg_cong[OF b, of "prompt_loop e fuel"]])
  qed
  from 1 2 show ?thesis by blast
qed

theorem indivisible_size_rejected_witness:
  "c_rem 5 2 = Some 1 \<and> (1::int) \<noteq> 0 \<and> (0::nat) < 1
   \<and> main ieee_arith demo_env 1 (Batch 5 2 1 4)
       = Some (initial_world\<lparr>out := [Endl, Str divisibility_error, Endl], prec := 8\<rparr>, Exit 1)
   \<and> inputs stuck_env (reads initial_world) = (5, 2, 1)
   \<and> prompt_loop stuck_env (Suc 0) initial_world
       = Some (initial_world\<lparr>out := prompts @ [Str (''   '' @ divisibility_error), Endl], reads := Suc 0\<rparr>,
               None)"
proof -
  have h: "c_rem 5 2 = Some 1" by (simp add: c_rem_def signed_modulo_int_def)
  have i: "inputs stuck_env (reads initial_world) = (5, 2, 1)" by (simp add: stuck_env_def)
  show ?thesis
    using indivisible_size_rejected[OF h, where fuel = 1 and ar = ieee_arith and e = demo_env
          and specificThreads = 4]
      indivisible_size_rejected[OF h, where fuel = 0 and e = stuck_env and w = initial_world] h i
    by (simp add: initial_world_def)
qed

text \<open>
  \<^bold>\<open>C4.\<close>  The prompt loop of lines 52 to 64 is \<^verbatim>\<open>while (true)\<close> without a
  \<^verbatim>\<open>break\<close>: after a valid triple the body ends and the loop prompts again.  So in
  interactive mode \<^verbatim>\<open>main\<close> never gets to the multiplication: whatever is typed, and
  however long the program runs, it has called no strategy and has not read the clock,
  and it has not ended.  With the valid triple \<open>N = 4\<close>, \<open>NEIB = 2\<close>, \<open>method = 1\<close>
  typed again and again, after \<open>fuel\<close> passes it is still prompting.
\<close>

theorem interactive_never_multiplies:
  "(\<forall>w en. main ar e fuel Interactive = Some (w, en) \<longrightarrow>
      en = OutOfFuel \<and> calls w = [] \<and> ticks w = 0 \<and> reads w = fuel)
   \<and> (\<exists>w. main ieee_arith demo_env fuel Interactive = Some (w, OutOfFuel)
          \<and> calls w = [] \<and> ticks w = 0 \<and> reads w = fuel)"
proof -
  have 1: "\<forall>w en. main ar e fuel Interactive = Some (w, en) \<longrightarrow>
      en = OutOfFuel \<and> calls w = [] \<and> ticks w = 0 \<and> reads w = fuel"
    using main_interactive by blast
  have "\<forall>k. case inputs demo_env k of (N, NEIB, method) \<Rightarrow> method = 1 \<longrightarrow> c_rem N NEIB \<noteq> None"
    by (simp add: demo_env_def c_rem_def)
  from prompt_loop_runs[OF this, of fuel "print [Endl] initial_world\<lparr>prec := 8\<rparr>"]
  obtain w' where "prompt_loop demo_env fuel (print [Endl] initial_world\<lparr>prec := 8\<rparr>) = Some (w', None)"
    by blast
  then have m: "main ieee_arith demo_env fuel Interactive = Some (w', OutOfFuel)"
    by (simp add: main_def)
  from main_interactive[OF m] m have 2:
    "\<exists>w. main ieee_arith demo_env fuel Interactive = Some (w, OutOfFuel)
          \<and> calls w = [] \<and> ticks w = 0 \<and> reads w = fuel"
    by blast
  from 1 2 show ?thesis by blast
qed

theorem interactive_never_multiplies_witness:
  "main ieee_arith demo_env 2 Interactive
     = Some (initial_world\<lparr>out := Endl # prompts @ prompts, prec := 8, reads := 2\<rparr>, OutOfFuel)
   \<and> calls (initial_world\<lparr>out := Endl # prompts @ prompts, prec := 8, reads := 2\<rparr> :: ieee world) = []"
proof -
  have "main ieee_arith demo_env 2 Interactive
     = Some (initial_world\<lparr>out := Endl # prompts @ prompts, prec := 8, reads := 2\<rparr>, OutOfFuel)"
    by (simp add: main_def numeral_2_eq_2 Let_def print_def initial_world_def demo_env_def c_rem_def
          signed_modulo_int_def)
  then show ?thesis
    using interactive_never_multiplies[of ieee_arith demo_env 2]
    by (simp add: initial_world_def)
qed

text \<open>
  \<^bold>\<open>C5.\<close>  In batch mode with a positive thread count and a configuration that is not
  rejected (\<open>N \<ge> 0\<close>, and for the blocked method \<^verbatim>\<open>N % NEIB == 0\<close>), \<^verbatim>\<open>main\<close> calls
  the selected strategy once, with that thread count, reads the clock twice, and
  returns 0.  Its whole output is the blank line of line 48 and one line
  \<open>method,threads,elapsed\<close>, the elapsed time in fixed notation with 8 decimals.
\<close>

theorem batch_single_run:
  assumes "0 \<le> N" and "method = 1 \<longrightarrow> NEIB \<noteq> 0 \<and> N smod NEIB = 0"
    and "0 < specificThreads" and "0 < fuel"
  shows "\<exists>w. main ar e fuel (Batch N NEIB method specificThreads) = Some (w, Exit 0)
           \<and> out w = [Endl, Num method, Str '','', Num specificThreads, Str '','',
                      Dbl 8 (dsub ar (wtime e 1) (wtime e 0)), Endl]
           \<and> calls w = [if method = 3 then Sequential N
                        else if method = 1 then Blocked N NEIB specificThreads
                        else Standard N specificThreads]
           \<and> ticks w = 2"
proof -
  have v: "valid_config N NEIB method" using assms(1,2) by (simp add: valid_config_def)
  obtain f where f: "fuel = Suc f" using assms(4) by (cases fuel) auto
  from main_batch_single[OF v assms(3), of ar e f] f show ?thesis
    by (auto simp add: csv_line_def single_call_def)
qed

theorem batch_single_run_witness:
  "(0::int) \<le> 100 \<and> (10::int) \<noteq> 0 \<and> (100::int) smod 10 = 0 \<and> (0::int) < 4 \<and> (0::nat) < 1
   \<and> (\<exists>w. main ieee_arith demo_env 1 (Batch 100 10 1 4) = Some (w, Exit 0)
         \<and> out w = [Endl, Num 1, Str '','', Num 4, Str '','', Dbl 8 (Fin 1), Endl]
         \<and> calls w = [Blocked 100 10 4] \<and> ticks w = 2)"
proof -
  have s: "(100::int) smod 10 = 0" by (simp add: signed_modulo_int_def)
  have t: "dsub ieee_arith (wtime demo_env 1) (wtime demo_env 0) = Fin 1"
    by (simp add: ieee_arith_def demo_env_def)
  show ?thesis
    using batch_single_run[of 100 1 10 4 1 ieee_arith demo_env] s t by simp
qed

text \<open>
  \<^bold>\<open>C9.\<close>  In batch mode with a thread count \<open>\<le> 0\<close> the branch of the single run is not
  taken.  Whatever the other arguments, if \<^verbatim>\<open>main\<close> ends (or is cut off) without
  undefined behaviour, every strategy call it has made had a thread count from 1 to 16,
  never the one requested, and nothing was written with 8 decimals (no line
  \<open>method,threads,elapsed\<close>).  The code signals no error for it: on a configuration
  that is not rejected it runs the whole sweep of lines 119 to 155 instead (one
  sequential run, or the thread counts 1 to 16 in ascending order), prints the table
  and returns 0.
\<close>

theorem nonpositive_threads_no_single_run:
  assumes "specificThreads \<le> 0"
  shows "(\<forall>w en. main ar e fuel (Batch N NEIB method specificThreads) = Some (w, en) \<longrightarrow>
            (\<forall>c \<in> set (calls w). call_threads c \<noteq> specificThreads
                                \<and> 1 \<le> call_threads c \<and> call_threads c \<le> 16)
            \<and> (\<forall>t. Dbl 8 t \<notin> set (out w)))
       \<and> (0 < fuel \<and> 0 \<le> N \<and> (method = 1 \<longrightarrow> NEIB \<noteq> 0 \<and> N smod NEIB = 0) \<longrightarrow>
            (\<exists>w. main ar e fuel (Batch N NEIB method specificThreads) = Some (w, Exit 0)
               \<and> calls w = (if method = 3 then [Sequential N]
                            else map (\<lambda>i. if method = 1 then Blocked N NEIB (i + 1)
                                           else Standard N (i + 1)) [0..15])
               \<and> out w = Endl # table_header
                           @ concat (map (table_row ar (dsub ar (wtime e 1) (wtime e 0)))
                                         (sweep_table ar e method 0))))"
proof -
  have 1: "\<forall>w en. main ar e fuel (Batch N NEIB method specificThreads) = Some (w, en) \<longrightarrow>
            (\<forall>c \<in> set (calls w). call_threads c \<noteq> specificThreads
                                \<and> 1 \<le> call_threads c \<and> call_threads c \<le> 16)
            \<and> (\<forall>t. Dbl 8 t \<notin> set (out w))"
    using main_batch_nonpositive[OF assms, of ar e fuel N NEIB "method"] assms by fastforce
  have 2: "\<exists>w. main ar e fuel (Batch N NEIB method specificThreads) = Some (w, Exit 0)
               \<and> calls w = (if method = 3 then [Sequential N]
                            else map (\<lambda>i. if method = 1 then Blocked N NEIB (i + 1)
                                           else Standard N (i + 1)) [0..15])
               \<and> out w = Endl # table_header
                           @ concat (map (table_row ar (dsub ar (wtime e 1) (wtime e 0)))
                                         (sweep_table ar e method 0))"
    if h: "0 < fuel" "0 \<le> N" "method = 1 \<longrightarrow> NEIB \<noteq> 0 \<and> N smod NEIB = 0"
  proof -
    have v: "valid_config N NEIB method" using h by (simp add: valid_config_def)
    obtain f where f: "fuel = Suc f" using h(1) by (cases fuel) auto
    have c: "sweep_calls N NEIB method
             = (if method = 3 then [Sequential N]
                else map (\<lambda>i. if method = 1 then Blocked N NEIB (i + 1)
                               else Standard N (i + 1)) [0..15])"
      by (simp add: sweep_calls_def sweep_call_def[abs_def] maxThreads_def)
    from main_batch_sweep[OF v assms, of ar e f] f c show ?thesis by auto
  qed
  from 1 2 show ?thesis by blast
qed

theorem nonpositive_threads_no_single_run_witness:
  "(0::int) \<le> 0 \<and> (0::nat) < 1 \<and> (0::int) \<le> 4 \<and> (2::int) \<noteq> 0 \<and> (4::int) smod 2 = 0
   \<and> (\<exists>w. main ieee_arith demo_env 1 (Batch 4 2 1 0) = Some (w, Exit 0)
         \<and> calls w = map (Blocked 4 2) [1..16]
         \<and> out w = Endl # table_header
                     @ concat (map (table_row ieee_arith (Fin 1)) (sweep_table ieee_arith demo_env 1 0)))"
proof -
  have s: "(4::int) smod 2 = 0" by (simp add: signed_modulo_int_def)
  have t: "dsub ieee_arith (wtime demo_env 1) (wtime demo_env 0) = Fin 1"
    by (simp add: ieee_arith_def demo_env_def)
  have c: "map (\<lambda>i. Blocked 4 2 (i + 1)) [0..15] = map (Blocked 4 2) [1..16]"
    by (simp add: upto.simps)
  show ?thesis
    using nonpositive_threads_no_single_run[of 0 ieee_arith demo_env 1 4 2 1] s t c by simp
qed

text \<open>
  \<^bold>\<open>C3.\<close>  The claim fails: the loop of lines 161 to 172 has no test of the elapsed time.
  Handed the baseline \<open>1.0\<close> and one Result with elapsed time \<open>0.0\<close>, it prints a
  numeric row whose speedup and efficiency are both infinity.
\<close>

theorem reporter_zero_time_counterexample:
  "out (print_results ieee_arith (Fin 1) [(1, \<lparr>timestamp = Fin 0, threads = 1\<rparr>)] initial_world)
   = [Str ''   '', Num 1, Str (tab @ tab), Dbl 6 (Fin 0),
      Str (tab @ tab), Dbl 2 PInf, Str (tab @ tab), Dbl 2 PInf, Endl]"
  by (simp add: print_def Let_def initial_world_def ieee_arith_def)

text \<open>
  \<^bold>\<open>C3, amended.\<close>  For every list of Results, every baseline and every arithmetic, the
  reporter prints for each entry, in order, one numeric row: the thread count, the
  elapsed time, the speedup \<open>baseline / elapsed\<close> and the efficiency
  \<open>speedup / threads\<close>, by plain division and without a test of the elapsed time.  In
  IEEE arithmetic, for an entry with elapsed time 0 and a finite baseline, the speedup
  and the efficiency printed are each an infinity or NaN.
\<close>

theorem reporter_divides_unguarded:
  "out (print_results ar st rs w)
     = out w @ concat (map (\<lambda>result.
         [Str ''   '', Num (fst result), Str (tab @ tab), Dbl 6 (timestamp (snd result)),
          Str (tab @ tab), Dbl 2 (ddiv ar st (timestamp (snd result))),
          Str (tab @ tab), Dbl 2 (ddiv ar (ddiv ar st (timestamp (snd result))) (dint ar (fst result))),
          Endl]) rs)
   \<and> not_finite (ddiv ieee_arith (Fin b) (Fin 0))
   \<and> not_finite (ddiv ieee_arith (ddiv ieee_arith (Fin b) (Fin 0)) (dint ieee_arith n))"
proof -
  have 1: "out (print_results ar st rs w)
     = out w @ concat (map (\<lambda>result.
         [Str ''   '', Num (fst result), Str (tab @ tab), Dbl 6 (timestamp (snd result)),
          Str (tab @ tab), Dbl 2 (ddiv ar st (timestamp (snd result))),
          Str (tab @ tab), Dbl 2 (ddiv ar (ddiv ar st (timestamp (snd result))) (dint ar (fst result))),
          Endl]) rs)"
    by (simp add: out_print_results table_row_def[abs_def])
  have 2: "not_finite (ddiv ieee_arith (Fin b) (Fin 0))" by (rule ieee_div_zero)
  have "dint ieee_arith n = Fin (of_int n)" by (simp add: ieee_arith_def)
  with ieee_div_not_finite[OF 2, of "of_int n"] have 3:
    "not_finite (ddiv ieee_arith (ddiv ieee_arith (Fin b) (Fin 0)) (dint ieee_arith n))" by simp
  from 1 2 3 show ?thesis by blast
qed

theorem reporter_divides_unguarded_witness:
  "out (print_results ieee_arith (Fin 0) [(2, \<lparr>timestamp = Fin 0, threads = 2\<rparr>)] initial_world)
     = [Str ''   '', Num 2, Str (tab @ tab), Dbl 6 (Fin 0),
        Str (tab @ tab), Dbl 2 NaN, Str (tab @ tab), Dbl 2 NaN, Endl]
   \<and> not_finite (ddiv ieee_arith (Fin 0) (Fin 0))
   \<and> not_finite (ddiv ieee_arith (ddiv ieee_arith (Fin 0) (Fin 0)) (dint ieee_arith 2))"
  using reporter_divides_unguarded[of ieee_arith "Fin 0" "[(2, \<lparr>timestamp = Fin 0, threads = 2\<rparr>)]"
      initial_world 0 2]
  by (simp add: initial_world_def ieee_arith_def)

text \<open>
  \<^bold>\<open>C6.\<close>  The claim fails when the elapsed time of the run with one thread is \<open>0.0\<close>:
  with a clock that does not advance, the sweep of the flat-parallel method on a
  \<open>1 \<times> 1\<close> matrix prints, for every thread count and so for thread count 1, the speedup
  \<open>0.0 / 0.0\<close> and the efficiency \<open>NaN / threads\<close>, both NaN, not \<open>1.0\<close>.
\<close>

theorem baseline_row_counterexample:
  "output_of (main ieee_arith stuck_env 1 (Batch 1 1 2 0))
   = Some (Endl # table_header @ concat (map nan_row [1..16]))"
proof -
  have v: "valid_config 1 1 2" by (simp add: valid_config_def)
  have t: "dsub ieee_arith (wtime stuck_env 1) (wtime stuck_env 0) = Fin 0"
    by (simp add: ieee_arith_def stuck_env_def)
  have "map (table_row ieee_arith (Fin 0)) (sweep_table ieee_arith stuck_env 2 0) = map nan_row [1..16]"
    by (simp add: sweep_table_def stuck_rows maxThreads_def succ_upto del: map_map)
  with main_sweep_output[OF v, of 0 1 ieee_arith stuck_env] t show ?thesis by simp
qed

text \<open>
  \<^bold>\<open>C6, amended.\<close>  In every table of the sweep (which \<^verbatim>\<open>main\<close> reaches in batch mode
  with a thread count \<open>\<le> 0\<close>, on a configuration that is not rejected) the first row is
  the entry for thread count 1, its elapsed time \<open>t\<close> is the baseline, its speedup is
  \<open>t / t\<close> and its efficiency \<open>(t / t) / 1\<close>.  Both are \<open>1.0\<close> whenever \<open>t / t = 1.0\<close>
  (and \<open>1.0 / 1.0 = 1.0\<close>), which in IEEE arithmetic holds for every finite \<open>t\<close> other
  than zero.
\<close>

theorem baseline_row_is_one:
  assumes "specificThreads \<le> 0" and "0 < fuel" and "0 \<le> N"
    and "method = 1 \<longrightarrow> NEIB \<noteq> 0 \<and> N smod NEIB = 0"
  shows "(\<exists>rest. output_of (main ar e fuel (Batch N NEIB method specificThreads))
            = Some (Endl # table_header
                    @ [Str ''   '', Num 1, Str (tab @ tab), Dbl 6 (dsub ar (wtime e 1) (wtime e 0)),
                       Str (tab @ tab),
                       Dbl 2 (ddiv ar (dsub ar (wtime e 1) (wtime e 0)) (dsub ar (wtime e 1) (wtime e 0))),
                       Str (tab @ tab),
                       Dbl 2 (ddiv ar (ddiv ar (dsub ar (wtime e 1) (wtime e 0))
                                               (dsub ar (wtime e 1) (wtime e 0))) (dint ar 1)),
                       Endl] @ rest))
       \<and> (ddiv ar (dsub ar (wtime e 1) (wtime e 0)) (dsub ar (wtime e 1) (wtime e 0)) = dint ar 1
          \<and> ddiv ar (dint ar 1) (dint ar 1) = dint ar 1 \<longrightarrow>
          (\<exists>rest. output_of (main ar e fuel (Batch N NEIB method specificThreads))
            = Some (Endl # table_header
                    @ [Str ''   '', Num 1, Str (tab @ tab), Dbl 6 (dsub ar (wtime e 1) (wtime e 0)),
                       Str (tab @ tab), Dbl 2 (dint ar 1), Str (tab @ tab), Dbl 2 (dint ar 1), Endl]
                    @ rest)))
       \<and> (\<forall>x. x \<noteq> 0 \<longrightarrow> ddiv ieee_arith (Fin x) (Fin x) = dint ieee_arith 1)
       \<and> ddiv ieee_arith (dint ieee_arith 1) (dint ieee_arith 1) = dint ieee_arith 1"
proof -
  let ?t = "dsub ar (wtime e 1) (wtime e 0)"
  have v: "valid_config N NEIB method" using assms(3,4) by (simp add: valid_config_def)
  from sweep_table_first[of ar e "method"] obtain rest where
    r: "sweep_table ar e method 0 = (1, \<lparr>timestamp = ?t, threads = 1\<rparr>) # rest" by blast
  have o: "output_of (main ar e fuel (Batch N NEIB method specificThreads))
           = Some (Endl # table_header
                   @ [Str ''   '', Num 1, Str (tab @ tab), Dbl 6 ?t,
                      Str (tab @ tab), Dbl 2 (ddiv ar ?t ?t),
                      Str (tab @ tab), Dbl 2 (ddiv ar (ddiv ar ?t ?t) (dint ar 1)), Endl]
                   @ concat (map (table_row ar ?t) rest))"
    using main_sweep_output[OF v assms(1,2), of ar e] r by (simp add: table_row_def)
  have 1: "\<exists>rest. output_of (main ar e fuel (Batch N NEIB method specificThreads))
            = Some (Endl # table_header
                    @ [Str ''   '', Num 1, Str (tab @ tab), Dbl 6 ?t,
                       Str (tab @ tab), Dbl 2 (ddiv ar ?t ?t),
                       Str (tab @ tab), Dbl 2 (ddiv ar (ddiv ar ?t ?t) (dint ar 1)), Endl] @ rest)"
    using o by blast
  have 2: "\<exists>rest. output_of (main ar e fuel (Batch N NEIB method specificThreads))
            = Some (Endl # table_header
                    @ [Str ''   '', Num 1, Str (tab @ tab), Dbl 6 ?t,
                       Str (tab @ tab), Dbl 2 (dint ar 1), Str (tab @ tab), Dbl 2 (dint ar 1), Endl]
                    @ rest)"
    if "ddiv ar ?t ?t = dint ar 1" "ddiv ar (dint ar 1) (dint ar 1) = dint ar 1"
    using o that by auto
  have 3: "\<forall>x. x \<noteq> 0 \<longrightarrow> ddiv ieee_arith (Fin x) (Fin x) = dint ieee_arith 1"
    by (simp add: ieee_div_self)
  have 4: "ddiv ieee_arith (dint ieee_arith 1) (dint ieee_arith 1) = dint ieee_arith 1"
    by (simp add: ieee_arith_def)
  from 1 2 3 4 show ?thesis by blast
qed

theorem baseline_row_is_one_witness:
  "(0::int) \<le> 0 \<and> (0::nat) < 1 \<and> (0::int) \<le> 1 \<and> (1::int) \<noteq> 0 \<and> (1::int) smod 1 = 0
   \<and> ddiv ieee_arith (dsub ieee_arith (wtime demo_env 1) (wtime demo_env 0))
        (dsub ieee_arith (wtime demo_env 1) (wtime demo_env 0)) = dint ieee_arith 1
   \<and> ddiv ieee_arith (dint ieee_arith 1) (dint ieee_arith 1) = dint ieee_arith 1
   \<and> (\<exists>rest. output_of (main ieee_arith demo_env 1 (Batch 1 1 1 0))
         = Some (Endl # table_header
                 @ [Str ''   '', Num 1, Str (tab @ tab), Dbl 6 (Fin 1),
                    Str (tab @ tab), Dbl 2 (Fin 1), Str (tab @ tab), Dbl 2 (Fin 1), Endl] @ rest))"
proof -
  have t: "dsub ieee_arith (wtime demo_env 1) (wtime demo_env 0) = Fin 1"
    by (simp add: ieee_arith_def demo_env_def)
  have d: "ddiv ieee_arith (Fin 1) (Fin 1) = Fin 1" "dint ieee_arith 1 = Fin 1"
    by (simp_all add: ieee_arith_def)
  have s: "(1::int) smod 1 = 0" by (simp add: signed_modulo_int_def)
  show ?thesis
    using baseline_row_is_one[of 0 1 1 1 1 ieee_arith demo_env] t d s by simp
qed

text \<open>
  \<^bold>\<open>C7.\<close>  In the blocked strategy with a block size \<open>NEIB > 0\<close>, for a fixed \<open>p\<close> the unit
  of work that the pragma hands to a thread is one iteration \<open>q\<close> of the loop over the
  block columns, and that iteration contains the whole loop over \<open>r\<close>: its statements are
  exactly the \<open>(i, j, k)\<close> with \<open>i\<close> in block row \<open>p\<close>, \<open>j\<close> in block column \<open>q\<close> and \<open>k\<close>
  in some block \<open>r\<close>; the team together executes exactly the statements of all \<open>q\<close> and
  \<open>r\<close>.  A unit writes only cells of block \<open>(p, q)\<close>: two different units write disjoint
  sets of cells, a thread writes only in block row \<open>p\<close> and the block columns of the
  iterations it was given, two different threads of a team write disjoint sets of cells
  however the iterations are distributed, and running a unit leaves every cell outside
  its block as it was.

  These units are what the strategy executes.  The team that the region for \<open>p\<close> starts
  (\<^const>\<open>omp_parallel_for\<close> on the iterations \<open>q\<close>) is a list of threads that write
  pairwise disjoint cells; whatever the distribution and the interleaving of the
  threads' reads and writes, the region ends in the memory that the units \<open>q = 0, 1, \<dots>\<close>
  executed one after the other, without any concurrency, leave.  So do all the regions
  together (\<^const>\<open>blocked_regions\<close>) and the call of
  \<^const>\<open>blockedMatrixMultiplication\<close>: under every schedule the call returns, with
  the memory that all the units \<open>(p, q)\<close>, each with all its \<open>r\<close>, executed in sequence
  leave.  No update of a cell is lost.
\<close>

theorem blocked_units_disjoint:
  assumes "0 < NEIB"
  shows "set (blocked_iteration NB NEIB p q)
           = {(i, j, k). i \<in> set (block_range NEIB p) \<and> j \<in> set (block_range NEIB q) \<and>
                         (\<exists>r \<in> {0..NB - 1}. k \<in> set (block_range NEIB r))}
       \<and> (0 < n \<longrightarrow>
            (\<Union>t \<in> {..<n}. set (thread_programs owner n (map (blocked_iteration NB NEIB p) [0..NB - 1]) ! t))
              = (\<Union>q \<in> {0..NB - 1}. set (blocked_iteration NB NEIB p q)))
       \<and> stmt_cells (blocked_iteration NB NEIB p q) \<subseteq> set (block_range NEIB p) \<times> set (block_range NEIB q)
       \<and> (p \<noteq> p' \<or> q \<noteq> q' \<longrightarrow>
            stmt_cells (blocked_iteration NB NEIB p q) \<inter> stmt_cells (blocked_iteration NB NEIB p' q') = {})
       \<and> (t < n \<and> t' < n \<and> t \<noteq> t' \<longrightarrow>
            stmt_cells (thread_programs owner n (map (blocked_iteration NB NEIB p) [0..NB - 1]) ! t)
            \<inter> stmt_cells (thread_programs owner n (map (blocked_iteration NB NEIB p) [0..NB - 1]) ! t') = {})
       \<and> (wf_mem (NB * NEIB) m \<and> 0 \<le> p \<and> p < NB \<and> 0 \<le> q \<and> q < NB \<longrightarrow>
            (\<exists>m'. run_stmts ar (blocked_iteration NB NEIB p q) m = Some m' \<and>
               (\<forall>i j. 0 \<le> i \<and> i < NB * NEIB \<and> 0 \<le> j \<and> j < NB * NEIB \<and>
                      \<not> (i \<in> set (block_range NEIB p) \<and> j \<in> set (block_range NEIB q)) \<longrightarrow>
                      cell (mat_c m') i j = cell (mat_c m) i j)))
       \<and> (t < n \<longrightarrow>
            stmt_cells (thread_programs owner n (map (blocked_iteration NB NEIB p) [0..NB - 1]) ! t)
            \<subseteq> set (block_range NEIB p)
                \<times> (\<Union>q \<in> {q. 0 \<le> q \<and> q < NB \<and> owner (nat q) mod n = t}. set (block_range NEIB q)))
       \<and> disjoint_threads
            (map (\<lambda>prog. (None, prog)) (thread_programs owner n (map (blocked_iteration NB NEIB p) [0..NB - 1])))
       \<and> (wf_mem (NB * NEIB) m \<and> 0 \<le> p \<and> p < NB \<and> 0 < nThreads \<longrightarrow>
            (\<exists>m'. run_stmts ar (concat (map (blocked_iteration NB NEIB p) [0..NB - 1])) m = Some m'
               \<and> (\<forall>sch. omp_parallel_for ar sch nThreads (map (blocked_iteration NB NEIB p) [0..NB - 1]) m
                          = Some m')
               \<and> (\<forall>own sg. run_threads ar sg
                     (map (\<lambda>prog. (None, prog))
                        (thread_programs own (nat nThreads) (map (blocked_iteration NB NEIB p) [0..NB - 1]))) m
                     = Some m')
               \<and> (\<forall>own m''. team_run ar
                     (map (\<lambda>prog. (None, prog))
                        (thread_programs own (nat nThreads) (map (blocked_iteration NB NEIB p) [0..NB - 1]))) m m''
                     \<longrightarrow> m'' = m')))
       \<and> (wf_mem (NB * NEIB) m \<and> 0 < nThreads \<longrightarrow>
            (\<exists>m'. run_stmts ar
                     (concat (map (\<lambda>p. concat (map (blocked_iteration NB NEIB p) [0..NB - 1])) [0..NB - 1])) m
                   = Some m'
               \<and> (\<forall>sch reg. blocked_regions ar sch nThreads NB NEIB [0..NB - 1] reg m
                              = Some (m', reg + nat NB))))
       \<and> (wf_mem N m \<and> 0 \<le> N \<and> N smod NEIB = 0 \<and> 0 < nThreads \<longrightarrow>
            (\<exists>m'. run_stmts ar
                     (concat (map (\<lambda>p. concat (map (blocked_iteration (N sdiv NEIB) NEIB p)
                                                     [0..N sdiv NEIB - 1])) [0..N sdiv NEIB - 1])) m
                   = Some m'
               \<and> (\<forall>e w. \<exists>r w'. blockedMatrixMultiplication ar e N NEIB nThreads (m, w)
                                  = Some (r, m', w'))))"
proof -
  let ?iters = "map (blocked_iteration NB NEIB p) [0..NB - 1]"
  have 1: "set (blocked_iteration NB NEIB p q)
           = {(i, j, k). i \<in> set (block_range NEIB p) \<and> j \<in> set (block_range NEIB q) \<and>
                         (\<exists>r \<in> {0..NB - 1}. k \<in> set (block_range NEIB r))}"
    by (rule set_blocked_iteration)
  have 2: "0 < n \<longrightarrow>
            (\<Union>t \<in> {..<n}. set (thread_programs owner n ?iters ! t))
              = (\<Union>q \<in> {0..NB - 1}. set (blocked_iteration NB NEIB p q))"
    by (simp add: set_thread_programs)
  have 3: "stmt_cells (blocked_iteration NB NEIB p q) \<subseteq> set (block_range NEIB p) \<times> set (block_range NEIB q)"
    by (rule stmt_cells_blocked_iteration)
  have 4: "p \<noteq> p' \<or> q \<noteq> q' \<longrightarrow>
            stmt_cells (blocked_iteration NB NEIB p q) \<inter> stmt_cells (blocked_iteration NB NEIB p' q') = {}"
    using stmt_cells_blocks_disjoint[OF assms] by blast
  have 5: "t < n \<and> t' < n \<and> t \<noteq> t' \<longrightarrow>
            stmt_cells (thread_programs owner n ?iters ! t)
            \<inter> stmt_cells (thread_programs owner n ?iters ! t') = {}"
    using disjoint_programs[OF disjoint_blocked[OF assms]] by blast
  have 6: "wf_mem (NB * NEIB) m \<and> 0 \<le> p \<and> p < NB \<and> 0 \<le> q \<and> q < NB \<longrightarrow>
            (\<exists>m'. run_stmts ar (blocked_iteration NB NEIB p q) m = Some m' \<and>
               (\<forall>i j. 0 \<le> i \<and> i < NB * NEIB \<and> 0 \<le> j \<and> j < NB * NEIB \<and>
                      \<not> (i \<in> set (block_range NEIB p) \<and> j \<in> set (block_range NEIB q)) \<longrightarrow>
                      cell (mat_c m') i j = cell (mat_c m) i j))"
    using writes_outside_block[OF assms] by blast
  have 7: "t < n \<longrightarrow>
            stmt_cells (thread_programs owner n ?iters ! t)
            \<subseteq> set (block_range NEIB p)
                \<times> (\<Union>q \<in> {q. 0 \<le> q \<and> q < NB \<and> owner (nat q) mod n = t}. set (block_range NEIB q))"
    using thread_cells_owned by blast
  have 8: "disjoint_threads (map (\<lambda>prog. (None, prog)) (thread_programs owner n ?iters))"
    by (rule disjoint_threads_programs[OF disjoint_blocked[OF assms]])
  have 9: "wf_mem (NB * NEIB) m \<and> 0 \<le> p \<and> p < NB \<and> 0 < nThreads \<longrightarrow>
            (\<exists>m'. run_stmts ar (concat ?iters) m = Some m'
               \<and> (\<forall>sch. omp_parallel_for ar sch nThreads ?iters m = Some m')
               \<and> (\<forall>own sg. run_threads ar sg
                     (map (\<lambda>prog. (None, prog)) (thread_programs own (nat nThreads) ?iters)) m = Some m')
               \<and> (\<forall>own m''. team_run ar
                     (map (\<lambda>prog. (None, prog)) (thread_programs own (nat nThreads) ?iters)) m m''
                     \<longrightarrow> m'' = m'))"
  proof
    assume h: "wf_mem (NB * NEIB) m \<and> 0 \<le> p \<and> p < NB \<and> 0 < nThreads"
    then have wf: "wf_mem (NB * NEIB) m" and p: "0 \<le> p" "p < NB" and nt: "0 < nThreads" by simp_all
    from omp_parallel_for_sequential[OF wf nt inb_blocked[OF assms p] disjoint_blocked[OF assms], of ar]
    show "\<exists>m'. run_stmts ar (concat ?iters) m = Some m'
               \<and> (\<forall>sch. omp_parallel_for ar sch nThreads ?iters m = Some m')
               \<and> (\<forall>own sg. run_threads ar sg
                     (map (\<lambda>prog. (None, prog)) (thread_programs own (nat nThreads) ?iters)) m = Some m')
               \<and> (\<forall>own m''. team_run ar
                     (map (\<lambda>prog. (None, prog)) (thread_programs own (nat nThreads) ?iters)) m m''
                     \<longrightarrow> m'' = m')"
      by blast
  qed
  have 10: "wf_mem (NB * NEIB) m \<and> 0 < nThreads \<longrightarrow>
            (\<exists>m'. run_stmts ar
                     (concat (map (\<lambda>p. concat (map (blocked_iteration NB NEIB p) [0..NB - 1])) [0..NB - 1])) m
                   = Some m'
               \<and> (\<forall>sch reg. blocked_regions ar sch nThreads NB NEIB [0..NB - 1] reg m
                              = Some (m', reg + nat NB)))"
  proof
    assume h: "wf_mem (NB * NEIB) m \<and> 0 < nThreads"
    then have wf: "wf_mem (NB * NEIB) m" and nt: "0 < nThreads" by simp_all
    have len: "length [0..NB - 1] = nat NB" by simp
    from blocked_regions_sequential[OF assms nt wf, of "[0..NB - 1]" ar] len
    show "\<exists>m'. run_stmts ar
                     (concat (map (\<lambda>p. concat (map (blocked_iteration NB NEIB p) [0..NB - 1])) [0..NB - 1])) m
                   = Some m'
               \<and> (\<forall>sch reg. blocked_regions ar sch nThreads NB NEIB [0..NB - 1] reg m
                              = Some (m', reg + nat NB))"
      by auto
  qed
  have 11: "wf_mem N m \<and> 0 \<le> N \<and> N smod NEIB = 0 \<and> 0 < nThreads \<longrightarrow>
            (\<exists>m'. run_stmts ar
                     (concat (map (\<lambda>p. concat (map (blocked_iteration (N sdiv NEIB) NEIB p)
                                                     [0..N sdiv NEIB - 1])) [0..N sdiv NEIB - 1])) m
                   = Some m'
               \<and> (\<forall>e w. \<exists>r w'. blockedMatrixMultiplication ar e N NEIB nThreads (m, w)
                                  = Some (r, m', w')))"
    using blocked_sequential[OF _ _ assms, of N m nThreads ar] by blast
  show ?thesis
    by (intro conjI) (fact 1, fact 2, fact 3, fact 4, fact 5, fact 6, fact 7, fact 8, fact 9, fact 10, fact 11)
qed

theorem blocked_units_disjoint_witness:
  "(0::int) < 2 \<and> (0::nat) < 2 \<and> (0::int) \<noteq> 1
   \<and> stmt_cells (blocked_iteration 2 2 0 0) \<inter> stmt_cells (blocked_iteration 2 2 0 1) = {}
   \<and> (1::nat) < 2 \<and> (0::nat) \<noteq> 1
   \<and> stmt_cells (thread_programs (\<lambda>x. x) 2 (map (blocked_iteration 2 2 0) [0..2 - 1]) ! 0)
     \<inter> stmt_cells (thread_programs (\<lambda>x. x) 2 (map (blocked_iteration 2 2 0) [0..2 - 1]) ! 1) = {}
   \<and> wf_mem (2 * 2) ones_mem \<and> (0::int) \<le> 0
   \<and> (\<exists>m'. run_stmts ieee_arith (blocked_iteration 2 2 0 0) ones_mem = Some m' \<and>
          cell (mat_c m') 3 3 = cell (mat_c ones_mem) 3 3 \<and>
          cell (mat_c m') 0 2 = cell (mat_c ones_mem) 0 2)
   \<and> (\<exists>m'. run_stmts ieee_arith (concat (map (blocked_iteration 2 2 0) [0..2 - 1])) ones_mem = Some m'
          \<and> omp_parallel_for ieee_arith (sched demo_env 0) 2 (map (blocked_iteration 2 2 0) [0..2 - 1]) ones_mem
              = Some m'
          \<and> omp_parallel_for ieee_arith (\<lambda>x. 0, [1, 0, 0, 1]) 2 (map (blocked_iteration 2 2 0) [0..2 - 1]) ones_mem
              = Some m')
   \<and> wf_mem 4 ones_mem \<and> (0::int) \<le> 4 \<and> (4::int) smod 2 = 0 \<and> (4::int) sdiv 2 = 2
   \<and> (\<exists>m'. run_stmts ieee_arith
               (concat (map (\<lambda>p. concat (map (blocked_iteration 2 2 p) [0..2 - 1])) [0..2 - 1])) ones_mem
             = Some m'
          \<and> mat_c m' = replicate 4 (replicate 4 (Fin 4))
          \<and> blocked_regions ieee_arith (sched demo_env) 2 2 2 [0..2 - 1] 0 ones_mem = Some (m', 2)
          \<and> (\<exists>r w'. blockedMatrixMultiplication ieee_arith demo_env 4 2 2 (ones_mem, initial_world)
                       = Some (r, m', w')))"
proof -
  have pos: "(0::int) < 2" by simp
  have h: "wf_mem 4 ones_mem"
    by (simp add: wf_mem_locals square_def ones_mem_def list_all_iff)
  have s: "(4::int) smod 2 = 0" "(4::int) sdiv 2 = 2"
    by (simp_all add: signed_modulo_int_def signed_divide_int_def)
  have b: "set (block_range 2 0) = {0..1}" by (simp add: block_range_def)
  note T = blocked_units_disjoint[OF pos, where NB = 2 and p = 0 and q = 0 and n = 2
      and owner = "\<lambda>x. x" and p' = 0 and q' = 1 and t = 0 and t' = 1 and m = ones_mem
      and ar = ieee_arith and nThreads = 2 and N = 4]
  note T4 = T[THEN conjunct2, THEN conjunct2, THEN conjunct2, THEN conjunct1]
  note T5 = T[THEN conjunct2, THEN conjunct2, THEN conjunct2, THEN conjunct2, THEN conjunct1]
  note T6 = T[THEN conjunct2, THEN conjunct2, THEN conjunct2, THEN conjunct2, THEN conjunct2,
      THEN conjunct1]
  note T9 = T[THEN conjunct2, THEN conjunct2, THEN conjunct2, THEN conjunct2, THEN conjunct2,
      THEN conjunct2, THEN conjunct2, THEN conjunct2, THEN conjunct1]
  note T10 = T[THEN conjunct2, THEN conjunct2, THEN conjunct2, THEN conjunct2, THEN conjunct2,
      THEN conjunct2, THEN conjunct2, THEN conjunct2, THEN conjunct2, THEN conjunct1]
  note T11 = T[THEN conjunct2, THEN conjunct2, THEN conjunct2, THEN conjunct2, THEN conjunct2,
      THEN conjunct2, THEN conjunct2, THEN conjunct2, THEN conjunct2, THEN conjunct2]
  have c4: "stmt_cells (blocked_iteration 2 2 0 0) \<inter> stmt_cells (blocked_iteration 2 2 0 1) = {}"
    using T4 by simp
  have c5: "stmt_cells (thread_programs (\<lambda>x. x) 2 (map (blocked_iteration 2 2 0) [0..2 - 1]) ! 0)
     \<inter> stmt_cells (thread_programs (\<lambda>x. x) 2 (map (blocked_iteration 2 2 0) [0..2 - 1]) ! 1) = {}"
    using T5 by simp
  from T6 h obtain m1 where m1: "run_stmts ieee_arith (blocked_iteration 2 2 0 0) ones_mem = Some m1"
    "\<forall>i j. 0 \<le> i \<and> i < 2 * 2 \<and> 0 \<le> j \<and> j < 2 * 2 \<and>
           \<not> (i \<in> set (block_range 2 0) \<and> j \<in> set (block_range 2 0)) \<longrightarrow>
           cell (mat_c m1) i j = cell (mat_c ones_mem) i j"
    by auto
  from m1(2) b have "cell (mat_c m1) 3 3 = cell (mat_c ones_mem) 3 3"
    "cell (mat_c m1) 0 2 = cell (mat_c ones_mem) 0 2" by auto
  with m1(1) have c6: "\<exists>m'. run_stmts ieee_arith (blocked_iteration 2 2 0 0) ones_mem = Some m' \<and>
          cell (mat_c m') 3 3 = cell (mat_c ones_mem) 3 3 \<and>
          cell (mat_c m') 0 2 = cell (mat_c ones_mem) 0 2" by blast
  from T9 h obtain m2 where
    m2: "run_stmts ieee_arith (concat (map (blocked_iteration 2 2 0) [0..2 - 1])) ones_mem = Some m2"
    "\<forall>sch. omp_parallel_for ieee_arith sch 2 (map (blocked_iteration 2 2 0) [0..2 - 1]) ones_mem = Some m2"
    by auto
  then have c9: "\<exists>m'. run_stmts ieee_arith (concat (map (blocked_iteration 2 2 0) [0..2 - 1])) ones_mem = Some m'
          \<and> omp_parallel_for ieee_arith (sched demo_env 0) 2 (map (blocked_iteration 2 2 0) [0..2 - 1]) ones_mem
              = Some m'
          \<and> omp_parallel_for ieee_arith (\<lambda>x. 0, [1, 0, 0, 1]) 2 (map (blocked_iteration 2 2 0) [0..2 - 1]) ones_mem
              = Some m'"
    by blast
  from T10 h obtain m3 where
    m3: "run_stmts ieee_arith
           (concat (map (\<lambda>p. concat (map (blocked_iteration 2 2 p) [0..2 - 1])) [0..2 - 1])) ones_mem
         = Some m3"
    "\<forall>sch reg. blocked_regions ieee_arith sch 2 2 2 [0..2 - 1] reg ones_mem = Some (m3, reg + nat 2)"
    by auto
  from T11 h s obtain m4 where
    m4: "run_stmts ieee_arith
           (concat (map (\<lambda>p. concat (map (blocked_iteration 2 2 p) [0..2 - 1])) [0..2 - 1])) ones_mem
         = Some m4"
    "\<forall>e w. \<exists>r w'. blockedMatrixMultiplication ieee_arith e 4 2 2 (ones_mem, w) = Some (r, m4, w')"
    by auto
  from m3(1) m4(1) have e: "m4 = m3" by simp
  from blocked_ok[OF h _ pos s(1), of 2 ieee_arith demo_env initial_world] obtain m5 r5 w5 where
    m5: "blockedMatrixMultiplication ieee_arith demo_env 4 2 2 (ones_mem, initial_world) = Some (r5, m5, w5)"
    "mat_c m5 = mac_product ieee_arith 4 (mat_a ones_mem) (mat_b ones_mem) (mat_c ones_mem)"
    by auto
  from m4(2) m5(1) e have e5: "m5 = m3" by (metis option.inject prod.inject)
  have v: "mac_product ieee_arith 4 (mat_a ones_mem) (mat_b ones_mem) (mat_c ones_mem)
           = replicate 4 (replicate 4 (Fin 4))"
    by (simp add: mac_product_def ones_mem_def ieee_arith_def cell_def upto.simps eval_nat_numeral)
  from m3(2) have r3: "blocked_regions ieee_arith (sched demo_env) 2 2 2 [0..2 - 1] 0 ones_mem = Some (m3, 2)"
    by simp
  have c11: "\<exists>m'. run_stmts ieee_arith
               (concat (map (\<lambda>p. concat (map (blocked_iteration 2 2 p) [0..2 - 1])) [0..2 - 1])) ones_mem
             = Some m'
          \<and> mat_c m' = replicate 4 (replicate 4 (Fin 4))
          \<and> blocked_regions ieee_arith (sched demo_env) 2 2 2 [0..2 - 1] 0 ones_mem = Some (m', 2)
          \<and> (\<exists>r w'. blockedMatrixMultiplication ieee_arith demo_env 4 2 2 (ones_mem, initial_world)
                       = Some (r, m', w'))"
    using m3(1) m5 e5 v r3 by auto
  have h': "wf_mem (2 * 2) ones_mem" using h by simp
  show ?thesis
    by (intro conjI) (simp, simp, simp, fact c4, simp, simp, fact c5, fact h', simp, fact c6, fact c9,
        fact h, simp, fact s(1), fact s(2), fact c11)
qed

end
